theory Spec2Isabelle
  imports Complex_Main
begin

section \<open>Timer conversion\<close>

text \<open>
  \<^verbatim>\<open>seconds_to_hms\<close> of \<^verbatim>\<open>Teledyne_Final_W_Integrator.py\<close>. Python integers are
  unbounded and \<^verbatim>\<open>//\<close>, \<^verbatim>\<open>%\<close> round towards minus infinity, as \<open>div\<close> and \<open>mod\<close>
  on \<^typ>\<open>int\<close> do.
\<close>

definition seconds_to_hms :: "int \<Rightarrow> int \<times> int \<times> int" where
  "seconds_to_hms seconds =
     (let h = seconds div 3600;
          m = (seconds mod 3600) div 60;
          s = seconds mod 60;
          h = min h 9999
      in (h, m, s))"

text \<open>The largest duration the timer command can carry: 9999 h 59 min 59 s.\<close>

definition max_encodable_seconds :: int where
  "max_encodable_seconds = 9999 * 3600 + 59 * 60 + 59"

section \<open>Text operations of the scripts\<close>

text \<open>
  Text received from the instrument is ASCII (the wire protocol is line-delimited ASCII),
  so a Python \<^verbatim>\<open>str\<close> is a \<^typ>\<open>string\<close> here. The functions below are the
  Python built-ins the scripts call, restricted to ASCII text.
\<close>

text \<open>\<^verbatim>\<open>str.isspace\<close> on ASCII: TAB, LF, VT, FF, CR, FS, GS, RS, US and the blank.\<close>

definition is_space :: "char \<Rightarrow> bool" where
  "is_space c = (let n = (of_char c :: nat) in (9 \<le> n \<and> n \<le> 13) \<or> (28 \<le> n \<and> n \<le> 32))"

text \<open>\<^verbatim>\<open>s.strip()\<close>\<close>

definition strip :: "string \<Rightarrow> string" where
  "strip s = rev (dropWhile is_space (rev (dropWhile is_space s)))"

text \<open>
  ASCII letters differ in bit 5 only: clearing it turns a lower-case letter into its
  capital (code minus 32), setting it does the converse.
\<close>

definition upper_char :: "char \<Rightarrow> char" where
  "upper_char c =
     (let n = (of_char c :: nat) in
      if 97 \<le> n \<and> n \<le> 122
      then (case c of Char b0 b1 b2 b3 b4 b5 b6 b7 \<Rightarrow> Char b0 b1 b2 b3 b4 False b6 b7)
      else c)"

definition lower_char :: "char \<Rightarrow> char" where
  "lower_char c =
     (let n = (of_char c :: nat) in
      if 65 \<le> n \<and> n \<le> 90
      then (case c of Char b0 b1 b2 b3 b4 b5 b6 b7 \<Rightarrow> Char b0 b1 b2 b3 b4 True b6 b7)
      else c)"

text \<open>\<^verbatim>\<open>s.upper()\<close>\<close>

definition upper :: "string \<Rightarrow> string" where
  "upper s = map upper_char s"

fun startswith :: "string \<Rightarrow> string \<Rightarrow> bool" where
  "startswith s [] = True"
| "startswith [] (p # ps) = False"
| "startswith (c # cs) (p # ps) = (c = p \<and> startswith cs ps)"

text \<open>\<^verbatim>\<open>sub in s\<close>: \<open>sub\<close> occurs in \<open>s\<close> as a run of consecutive characters.\<close>

fun str_in :: "string \<Rightarrow> string \<Rightarrow> bool" where
  "str_in sub [] = (sub = [])"
| "str_in sub (c # cs) = (startswith (c # cs) sub \<or> str_in sub cs)"

text \<open>\<^verbatim>\<open>s.split(",")\<close>: never empty; \<open>n\<close> commas give \<open>n + 1\<close> fields.\<close>

fun split_comma :: "string \<Rightarrow> string list" where
  "split_comma [] = [[]]"
| "split_comma (c # cs) =
     (if c = CHR '','' then [] # split_comma cs
      else (case split_comma cs of
              f # fs \<Rightarrow> (c # f) # fs
            | [] \<Rightarrow> [[c]]))"

section \<open>Floating-point values and \<^verbatim>\<open>float()\<close>\<close>

text \<open>
  A Python float is modelled by its mathematical value: a finite value is an exact
  rational (rounding to binary64 and the sign of zero are not modelled), beside the
  infinities and not-a-number, which \<^verbatim>\<open>float()\<close> accepts by name and returns for a
  number too large for a finite value.
\<close>

datatype pyfloat = Finite rat | Infinity bool | NaN

definition is_digit :: "char \<Rightarrow> bool" where
  "is_digit c = (let n = (of_char c :: nat) in 48 \<le> n \<and> n \<le> 57)"

definition digit_val :: "char \<Rightarrow> nat" where
  "digit_val c = of_char c - 48"

text \<open>
  The grammar of \<^verbatim>\<open>float()\<close>: a digit part is a digit followed by digits, each
  optionally preceded by one underscore. \<open>digitpart_rest\<close> reads what follows the first
  digit and returns the digits read and the remaining text.
\<close>

fun digitpart_rest :: "string \<Rightarrow> string \<times> string" where
  "digitpart_rest [] = ([], [])"
| "digitpart_rest [c] = (if is_digit c then ([c], []) else ([], [c]))"
| "digitpart_rest (c # d # cs) =
     (if is_digit c then (case digitpart_rest (d # cs) of (ds, r) \<Rightarrow> (c # ds, r))
      else if c = CHR ''_'' \<and> is_digit d then (case digitpart_rest cs of (ds, r) \<Rightarrow> (d # ds, r))
      else ([], c # d # cs))"

definition digitpart :: "string \<Rightarrow> (string \<times> string) option" where
  "digitpart s =
     (case s of
        [] \<Rightarrow> None
      | c # cs \<Rightarrow>
          if is_digit c then (case digitpart_rest cs of (ds, r) \<Rightarrow> Some (c # ds, r))
          else None)"

text \<open>
  \<^verbatim>\<open>number ::= [digitpart] "." digitpart | digitpart ["."]\<close>: the integer digits, the
  fraction digits and the remaining text.
\<close>

definition number :: "string \<Rightarrow> (string \<times> string \<times> string) option" where
  "number s =
     (case digitpart s of
        Some (ip, r) \<Rightarrow>
          (case r of
             [] \<Rightarrow> Some (ip, [], [])
           | c # r' \<Rightarrow>
               if c = CHR ''.'' then
                 (case digitpart r' of
                    Some (fp, r'') \<Rightarrow> Some (ip, fp, r'')
                  | None \<Rightarrow> Some (ip, [], r'))
               else Some (ip, [], r))
      | None \<Rightarrow>
          (case s of
             [] \<Rightarrow> None
           | c # r' \<Rightarrow>
               if c = CHR ''.'' then
                 (case digitpart r' of
                    Some (fp, r'') \<Rightarrow> Some ([], fp, r'')
                  | None \<Rightarrow> None)
               else None))"

text \<open>\<^verbatim>\<open>exponent ::= ("e" | "E") [sign] digitpart\<close>, or nothing; it must end the text.\<close>

definition exponent :: "string \<Rightarrow> int option" where
  "exponent s =
     (case s of
        [] \<Rightarrow> Some 0
      | c # r \<Rightarrow>
          if c = CHR ''e'' \<or> c = CHR ''E'' then
            (let (neg, r') =
               (case r of
                  [] \<Rightarrow> (False, r)
                | g # t \<Rightarrow>
                    if g = CHR ''-'' then (True, t)
                    else if g = CHR ''+'' then (False, t)
                    else (False, r))
             in case digitpart r' of
                  Some (ds, []) \<Rightarrow>
                    (let n = int (foldl (\<lambda>a d. 10 * a + digit_val d) 0 ds)
                     in Some (if neg then - n else n))
                | _ \<Rightarrow> None)
          else None)"

definition scale10 :: "rat \<Rightarrow> int \<Rightarrow> rat" where
  "scale10 x e = (if 0 \<le> e then x * 10 ^ nat e else x / 10 ^ nat (- e))"

text \<open>
  The value of a decimal number is rounded to the nearest binary64 value, so a number
  of magnitude \<open>2^1024 - 2^970\<close> or more (half-way between the largest finite value and
  \<open>2^1024\<close>) is read as infinity: \<^verbatim>\<open>float('1e400')\<close> is \<^verbatim>\<open>inf\<close>. Below that the exact
  value is kept.
\<close>

definition float_overflow :: rat where
  "float_overflow = 2 ^ 1024 - 2 ^ 970"

text \<open>The decimal number \<open>n * 10^e\<close> is read as infinity.\<close>

definition overflows :: "nat \<Rightarrow> int \<Rightarrow> bool" where
  "overflows n e = (float_overflow \<le> scale10 (of_nat n) e)"

definition abs_float :: "string \<Rightarrow> pyfloat option" where
  "abs_float s =
     (let l = map lower_char s in
      if l = ''inf'' \<or> l = ''infinity'' then Some (Infinity False)
      else if l = ''nan'' then Some NaN
      else
        (case number s of
           None \<Rightarrow> None
         | Some (ip, fp, r) \<Rightarrow>
             (case exponent r of
                None \<Rightarrow> None
              | Some e \<Rightarrow>
                  (let n = foldl (\<lambda>a d. 10 * a + digit_val d) 0 (ip @ fp)
                   in if overflows n (e - int (length fp)) then Some (Infinity False)
                      else Some (Finite (scale10 (of_nat n) (e - int (length fp))))))))"

definition negate :: "pyfloat \<Rightarrow> pyfloat" where
  "negate x = (case x of Finite r \<Rightarrow> Finite (- r) | Infinity b \<Rightarrow> Infinity (\<not> b) | NaN \<Rightarrow> NaN)"

text \<open>
  The whitespace \<^verbatim>\<open>float()\<close> strips from an ASCII string: TAB, LF, VT, FF, CR and the
  blank. The separators FS, GS, RS, US, which \<^verbatim>\<open>str.strip\<close> removes, are not among them:
  \<^verbatim>\<open>float('\x1c1')\<close> raises.
\<close>

definition is_float_space :: "char \<Rightarrow> bool" where
  "is_float_space c = (let n = (of_char c :: nat) in (9 \<le> n \<and> n \<le> 13) \<or> n = 32)"

definition float_strip :: "string \<Rightarrow> string" where
  "float_strip s = rev (dropWhile is_float_space (rev (dropWhile is_float_space s)))"

text \<open>
  \<^verbatim>\<open>float(s)\<close> for a string: \<open>None\<close> is \<^verbatim>\<open>ValueError\<close>. Surrounding whitespace is
  stripped, then an optional sign, then a number with an optional exponent, or the name
  of an infinity or of not-a-number. The empty string is a \<^verbatim>\<open>ValueError\<close>.
\<close>

definition py_float :: "string \<Rightarrow> pyfloat option" where
  "py_float s =
     (case float_strip s of
        [] \<Rightarrow> None
      | c # r \<Rightarrow>
          if c = CHR ''-'' then map_option negate (abs_float r)
          else if c = CHR ''+'' then abs_float r
          else abs_float (c # r))"

text \<open>
  Division of a float by a positive finite number (the only division the scripts do,
  after the guard on the divisor).
\<close>

definition fdiv :: "pyfloat \<Rightarrow> rat \<Rightarrow> pyfloat" where
  "fdiv x d = (case x of Finite r \<Rightarrow> Finite (r / d) | Infinity b \<Rightarrow> Infinity b | NaN \<Rightarrow> NaN)"

section \<open>The serial link and the session state\<close>

text \<open>
  The instrument is outside the program. It is modelled as a script: \<open>on_write k\<close> is
  what the \<open>k\<close>-th call of \<^verbatim>\<open>ser.write\<close> does and \<open>on_read k\<close> what the \<open>k\<close>-th call of
  \<^verbatim>\<open>ser.readline\<close> does, with the time each call takes in milliseconds. Quantifying
  over all scripts covers every behaviour of the instrument and of the link.
\<close>

datatype write_result = WriteOk | WriteTimeout | WriteSerialError | WriteError

text \<open>
  \<open>Bytes bs\<close>: \<^verbatim>\<open>readline\<close> returned the bytes \<open>bs\<close> (none on a timeout), which decode to
  the same ASCII text. \<open>Undecodable bs\<close>: it returned bytes on which \<^verbatim>\<open>decode()\<close> raises
  \<^verbatim>\<open>UnicodeDecodeError\<close>. The last two: \<^verbatim>\<open>readline\<close> raised \<^verbatim>\<open>SerialException\<close>, or
  another exception.
\<close>

datatype readline_result = Bytes string | Undecodable string | ReadSerialError | ReadError

record device =
  on_write :: "nat \<Rightarrow> write_result"
  write_ms :: "nat \<Rightarrow> nat"
  on_read :: "nat \<Rightarrow> readline_result"
  read_ms :: "nat \<Rightarrow> nat"

text \<open>What crossed the link, in order: the calls of the two \<^verbatim>\<open>safe_serial\<close> functions.\<close>

datatype wire_event = Sent string | SendFailed string | Received "string option"

text \<open>The console messages of the scripts that report a failure, with their arguments.\<close>

datatype msg =
    ErrWriteTimeout string
  | ErrWriteSerial string
  | ErrWriteUnexpected string
  | ErrReadSerial
  | ErrReadDecode string
  | ErrReadUnexpected
  | WarnIdnUnfamiliar string
  | WarnNoIdn
  | Confirm string "string option"
  | FatalConfig string
  | WarnStateSendFailed
  | WarnNoStateResponse
  | ErrStopped string
  | ErrOverflow string
  | WarnUnexpectedState string
  | WarnFieldCount nat string
  | ErrParse string
  | WarnNoMeasurement
  | ErrFile string
  | ErrCycle string
  | CycleWithErrors nat
  | CycleSuccessful nat
  | WarnStopNotSent

text \<open>
  A cell of the CSV file: a header text, the time stamp (the clock when it was taken), a
  float printed with a fixed number of decimals (\<^verbatim>\<open>f"{x:.4f}"\<close>), or a float handed to
  the CSV writer as it is.
\<close>

datatype cell = Text string | Stamp nat | Fixed nat pyfloat | Plain pyfloat

text \<open>
  The state of a session: the clock (milliseconds), the number of \<^verbatim>\<open>write\<close> and
  \<^verbatim>\<open>readline\<close> calls made so far, the record of the link, the console, and the rows of
  the CSV file.
\<close>

record world =
  clock :: nat
  wcount :: nat
  rcount :: nat
  wire :: "wire_event list"
  console :: "msg list"
  csv :: "cell list list"

definition sleep :: "nat \<Rightarrow> world \<Rightarrow> world" where
  "sleep ms w = w\<lparr>clock := clock w + ms\<rparr>"

definition print :: "msg \<Rightarrow> world \<Rightarrow> world" where
  "print m w = w\<lparr>console := console w @ [m]\<rparr>"

definition emit :: "wire_event \<Rightarrow> world \<Rightarrow> world" where
  "emit e w = w\<lparr>wire := wire w @ [e]\<rparr>"

text \<open>
  \<^verbatim>\<open>safe_serial_write\<close>: \<open>True\<close> after a write that succeeded and the 0.1 s pause, \<open>False\<close>
  with a message after any exception.
\<close>

definition safe_serial_write :: "device \<Rightarrow> string \<Rightarrow> world \<Rightarrow> bool \<times> world" where
  "safe_serial_write dev command w =
     (let k = wcount w;
          w = w\<lparr>wcount := k + 1, clock := clock w + write_ms dev k\<rparr>
      in case on_write dev k of
           WriteOk \<Rightarrow> (True, sleep 100 (emit (Sent command) w))
         | WriteTimeout \<Rightarrow> (False, print (ErrWriteTimeout (strip command)) (emit (SendFailed command) w))
         | WriteSerialError \<Rightarrow> (False, print (ErrWriteSerial (strip command)) (emit (SendFailed command) w))
         | WriteError \<Rightarrow> (False, print (ErrWriteUnexpected (strip command)) (emit (SendFailed command) w)))"

text \<open>
  \<^verbatim>\<open>safe_serial_read\<close>: the stripped text of a line that arrived and decoded, and \<open>None\<close>
  in every other case: no data, a serial error, undecodable bytes, any other exception.
\<close>

definition safe_serial_read :: "device \<Rightarrow> world \<Rightarrow> string option \<times> world" where
  "safe_serial_read dev w =
     (let k = rcount w;
          w = w\<lparr>rcount := k + 1, clock := clock w + read_ms dev k\<rparr>
      in case on_read dev k of
           Bytes response_bytes \<Rightarrow>
             if response_bytes \<noteq> [] then
               (let response_str = strip response_bytes
                in (Some response_str, emit (Received (Some response_str)) w))
             else (None, emit (Received None) w)
         | Undecodable response_bytes \<Rightarrow>
             if response_bytes \<noteq> [] then
               (None, print (ErrReadDecode response_bytes) (emit (Received None) w))
             else (None, emit (Received None) w)
         | ReadSerialError \<Rightarrow> (None, print ErrReadSerial (emit (Received None) w))
         | ReadError \<Rightarrow> (None, print ErrReadUnexpected (emit (Received None) w)))"

section \<open>Configuration of the instrument\<close>

text \<open>\<^verbatim>\<open>str(n)\<close> for an integer, as the f-string of the timer command prints it.\<close>

fun show_nat :: "nat \<Rightarrow> string" where
  "show_nat n =
     (if n < 10 then [char_of (48 + n)]
      else show_nat (n div 10) @ [char_of (48 + n mod 10)])"

definition show_int :: "int \<Rightarrow> string" where
  "show_int i = (if i < 0 then CHR ''-'' # show_nat (nat (- i)) else show_nat (nat i))"

text \<open>
  The configuration block is a straight line of four kinds of statements, done in order:
  \<^item> \<open>Identify\<close>: the \<^verbatim>\<open>*IDN?\<close> exchange, which raises when the query cannot be sent or
    no identification comes back;
  \<^item> \<open>Must command message\<close>:
    \<^verbatim>\<open>if not safe_serial_write(ser, command): raise Exception(message)\<close>;
  \<^item> \<open>Query command label\<close>:
    \<^verbatim>\<open>if safe_serial_write(ser, command): print(f"{label}: {safe_serial_read(ser)}")\<close>;
  \<^item> \<open>Pause ms\<close>: \<^verbatim>\<open>time.sleep\<close>.
  A step returns \<open>Some message\<close> when it raises \<^verbatim>\<open>Exception(message)\<close>.
\<close>

datatype step = Identify | Must string string | Query string string | Pause nat

definition run_step :: "device \<Rightarrow> step \<Rightarrow> world \<Rightarrow> string option \<times> world" where
  "run_step dev st w =
     (case st of
        Identify \<Rightarrow>
          (case safe_serial_write dev ''*IDN?\<newline>'' w of
             (False, w) \<Rightarrow> (Some ''Failed to send *IDN?'', w)
           | (True, w) \<Rightarrow>
               (case safe_serial_read dev w of
                  (None, w) \<Rightarrow> (Some ''Failed to get IDN response'', print WarnNoIdn w)
                | (Some idn_response, w) \<Rightarrow>
                    if idn_response \<noteq> [] then
                      (if \<not> str_in ''TELEDYNE'' (upper idn_response)
                          \<and> \<not> str_in ''LECROY'' (upper idn_response)
                       then (None, print (WarnIdnUnfamiliar idn_response) w)
                       else (None, w))
                    else (Some ''Failed to get IDN response'', print WarnNoIdn w)))
      | Must command message \<Rightarrow>
          (case safe_serial_write dev command w of
             (False, w) \<Rightarrow> (Some message, w)
           | (True, w) \<Rightarrow> (None, w))
      | Query command label \<Rightarrow>
          (case safe_serial_write dev command w of
             (False, w) \<Rightarrow> (None, w)
           | (True, w) \<Rightarrow>
               (case safe_serial_read dev w of
                  (response, w) \<Rightarrow> (None, print (Confirm label response) w)))
      | Pause ms \<Rightarrow> (None, sleep ms w))"

text \<open>Statements in order; the first exception ends the block.\<close>

fun run_steps :: "device \<Rightarrow> step list \<Rightarrow> world \<Rightarrow> string option \<times> world" where
  "run_steps dev [] w = (None, w)"
| "run_steps dev (st # sts) w =
     (case run_step dev st w of
        (Some message, w) \<Rightarrow> (Some message, w)
      | (None, w) \<Rightarrow> run_steps dev sts w)"

definition timer_cmd :: "int \<Rightarrow> string" where
  "timer_cmd integration_interval_seconds =
     (case seconds_to_hms integration_interval_seconds of
        (h, m, s) \<Rightarrow>
          '':INTegrate:TIMer '' @ show_int h @ '','' @ show_int m @ '','' @ show_int s @ ''\<newline>'')"

definition config_steps :: "int \<Rightarrow> step list" where
  "config_steps integration_interval_seconds =
     [ Pause 500,
       Identify,
       Must '':INTegrate:MODE STANdard\<newline>'' ''Failed to set integrate mode'',
       Must '':INTegrate:FUNCtion WATT\<newline>'' ''Failed to set integrate function'',
       Must (timer_cmd integration_interval_seconds) ''Failed to set integrate timer'',
       Pause 200,
       Query '':INTEGRATE:MODE?\<newline>'' ''Confirm Mode'',
       Query '':INTEGRATE:FUNCTION?\<newline>'' ''Confirm Function'',
       Query '':INTEGRATE:TIMER?\<newline>'' ''Confirm Timer'',
       Must '':NUMeric:NORMal:ITEM1 UPPeak\<newline>'' ''Failed to set NUM ITEM1'',
       Must '':NUMeric:NORMal:ITEM2 I\<newline>'' ''Failed to set NUM ITEM2'',
       Must '':NUMeric:NORMal:ITEM3 P\<newline>'' ''Failed to set NUM ITEM3'',
       Must '':NUMeric:NORMal:ITEM4 WH\<newline>'' ''Failed to set NUM ITEM4'',
       Must '':NUMeric:NORMal:NUMBer 4\<newline>'' ''Failed to set NUM NUMBER'',
       Query '':NUMERIC:NORMAL:NUMBER?\<newline>'' ''Confirm Number of Items'' ]"

definition configure :: "device \<Rightarrow> int \<Rightarrow> world \<Rightarrow> string option \<times> world" where
  "configure dev integration_interval_seconds w =
     run_steps dev (config_steps integration_interval_seconds) w"

section \<open>Decoding a measurement and writing its row\<close>

text \<open>
  \<^verbatim>\<open>float(v) if v else 0.0\<close>: the conversion of one field in the integration script.
\<close>

definition float_or_zero :: "string \<Rightarrow> pyfloat option" where
  "float_or_zero v = (if v \<noteq> [] then py_float v else Some (Finite 0))"

text \<open>
  The average power over the interval: the energy divided by the interval in hours,
  and \<open>0.0\<close> when the interval is not above the guard \<open>1e-9\<close>.
\<close>

definition average_power :: "int \<Rightarrow> pyfloat \<Rightarrow> pyfloat" where
  "average_power integration_interval_seconds watt_hours =
     (let interval_hours = (of_int integration_interval_seconds :: rat) / 3600
      in if interval_hours > 1 / 10 ^ 9 then fdiv watt_hours interval_hours
         else Finite 0)"

text \<open>
  The four conversions of the integration script, in order; \<open>None\<close> is the
  \<^verbatim>\<open>ValueError\<close> of the first field that does not convert. The caller has checked that
  there are at least four fields.
\<close>

definition convert4 :: "string list \<Rightarrow> (pyfloat \<times> pyfloat \<times> pyfloat \<times> pyfloat) option" where
  "convert4 values =
     (case float_or_zero (values ! 0) of None \<Rightarrow> None | Some peak_voltage \<Rightarrow>
      case float_or_zero (values ! 1) of None \<Rightarrow> None | Some current \<Rightarrow>
      case float_or_zero (values ! 2) of None \<Rightarrow> None | Some instant_power \<Rightarrow>
      case float_or_zero (values ! 3) of None \<Rightarrow> None | Some watt_hours \<Rightarrow>
      Some (peak_voltage, current, instant_power, watt_hours))"

text \<open>
  The block of the integration script that follows the numeric query: it returns the
  flag \<^verbatim>\<open>cycle_error\<close>. The CSV file is open throughout the loop, so the branch for a
  missing writer is never taken and is left out.
\<close>

definition record_measurement :: "int \<Rightarrow> string option \<Rightarrow> world \<Rightarrow> bool \<times> world" where
  "record_measurement integration_interval_seconds response w =
     (case response of
        None \<Rightarrow> (True, print WarnNoMeasurement w)
      | Some response \<Rightarrow>
          if response \<noteq> [] then
            (let values = split_comma response in
             if length values \<ge> 4 then
               (case convert4 values of
                  Some (peak_voltage, current, instant_power, watt_hours) \<Rightarrow>
                    (let average_power = average_power integration_interval_seconds watt_hours;
                         timestamp = Stamp (clock w)
                     in (False, w\<lparr>csv := csv w @
                           [[timestamp, Fixed 4 average_power, Fixed 6 watt_hours,
                             Fixed 4 peak_voltage, Fixed 4 current, Fixed 4 instant_power]]\<rparr>))
                | None \<Rightarrow> (True, print (ErrParse response) w))
             else (True, print (WarnFieldCount (length values) response) w))
          else (True, print WarnNoMeasurement w))"

text \<open>
  The same block of the averaging script \<^verbatim>\<open>t3pm1006_avgAC.py\<close>: three fields, each
  converted by \<^verbatim>\<open>float()\<close> alone, and no error flag. The response is the stripped line,
  the empty string when nothing arrived.
\<close>

definition convert3 :: "string list \<Rightarrow> (pyfloat \<times> pyfloat \<times> pyfloat) option" where
  "convert3 values =
     (case py_float (values ! 0) of None \<Rightarrow> None | Some peak_voltage \<Rightarrow>
      case py_float (values ! 1) of None \<Rightarrow> None | Some current \<Rightarrow>
      case py_float (values ! 2) of None \<Rightarrow> None | Some power' \<Rightarrow>
      Some (peak_voltage, current, power'))"

definition record_average :: "string \<Rightarrow> world \<Rightarrow> world" where
  "record_average response w =
     (if response \<noteq> [] then
        (let values = split_comma response in
         if length values \<ge> 3 then
           (case convert3 values of
              Some (peak_voltage, current, power') \<Rightarrow>
                (let timestamp = Stamp (clock w)
                 in w\<lparr>csv := csv w @
                      [[timestamp, Plain peak_voltage, Plain current, Plain power']]\<rparr>)
            | None \<Rightarrow> print (ErrParse response) w)
         else print (WarnFieldCount (length values) response) w)
      else print WarnNoMeasurement w)"

section \<open>The integration cycle\<close>

text \<open>
  The exceptions raised in the body of a cycle, with their messages (the time-out
  messages without the formatted number).
\<close>

datatype exc = TimeoutError string | Exception string

text \<open>
  The polling loop. \<open>software_timeout\<close> is in milliseconds, \<open>polling_start_time\<close> is the
  clock at entry. The result is the exception that left the loop, or \<open>None\<close> after
  \<^verbatim>\<open>break\<close>. The loop ends for every script of the instrument: each round takes at
  least the 0.1 s pause of a successful write or the 1 s pause after a failed one, so
  the time left before the software time-out decreases.
\<close>

function poll_state :: "device \<Rightarrow> int \<Rightarrow> nat \<Rightarrow> world \<Rightarrow> exc option \<times> world" where
  "poll_state dev software_timeout polling_start_time w =
     (if int (clock w) - int polling_start_time > software_timeout
      then (Some (TimeoutError ''waiting for TIMEUP/TIM state''), w)
      else
        (case safe_serial_write dev '':INTEGRATE:STATE?\<newline>'' w of
           (False, w1) \<Rightarrow>
             (let w2 = sleep 1000 (print WarnStateSendFailed w1) in
              if int (clock w2) - int polling_start_time > software_timeout
              then (Some (TimeoutError ''after failing to send STATE query''), w2)
              else poll_state dev software_timeout polling_start_time w2)
         | (True, w1) \<Rightarrow>
             (case safe_serial_read dev w1 of
                (None, w2) \<Rightarrow>
                  (let w3 = print WarnNoStateResponse w2 in
                   if int (clock w3) - int polling_start_time > software_timeout
                   then (Some (TimeoutError ''after failing to read STATE response''), w3)
                   else poll_state dev software_timeout polling_start_time w3)
              | (Some state_response, w2) \<Rightarrow>
                  (let state_response_upper = upper state_response in
                   if str_in ''TIM'' state_response_upper \<or> str_in ''TIMEUP'' state_response_upper
                   then (None, w2)
                   else if str_in ''RUN'' state_response_upper
                           \<or> str_in ''RUNNING'' state_response_upper
                   then poll_state dev software_timeout polling_start_time (sleep 400 w2)
                   else if str_in ''STOP'' state_response_upper
                           \<or> str_in ''RESET'' state_response_upper
                   then (Some (Exception (''Integration stopped unexpectedly: '' @ state_response_upper)),
                         print (ErrStopped state_response_upper) w2)
                   else if str_in ''OVERFLOW'' state_response_upper
                   then (Some (Exception (''Integration overflow: '' @ state_response_upper)),
                         print (ErrOverflow state_response_upper) w2)
                   else poll_state dev software_timeout polling_start_time
                          (sleep 500 (print (WarnUnexpectedState state_response_upper) w2))))))"
  by pat_completeness auto

text \<open>
  The body of one cycle, inside the inner \<^verbatim>\<open>try\<close>: reset, start, poll, query, decode and
  write. \<open>Inl e\<close>: the body raised \<open>e\<close>; \<open>Inr cycle_error\<close>: it ended with that flag. The
  software time-out is \<^verbatim>\<open>integration_interval_seconds * 1.5 + 5\<close> seconds, here in
  milliseconds.
\<close>

definition cycle_body :: "device \<Rightarrow> int \<Rightarrow> world \<Rightarrow> (exc + bool) \<times> world" where
  "cycle_body dev integration_interval_seconds w =
     (case safe_serial_write dev '':INTegrate:RESet\<newline>'' w of
        (False, w) \<Rightarrow> (Inl (Exception ''Failed to send RESET command''), w)
      | (True, w) \<Rightarrow>
     (let w = sleep 300 w in
      case safe_serial_write dev '':INTegrate:STARt\<newline>'' w of
        (False, w) \<Rightarrow> (Inl (Exception ''Failed to send START command''), w)
      | (True, w) \<Rightarrow>
     (let w = sleep 100 w;
          polling_start_time = clock w;
          software_timeout = integration_interval_seconds * 1500 + 5000
      in case poll_state dev software_timeout polling_start_time w of
        (Some e, w) \<Rightarrow> (Inl e, w)
      | (None, w) \<Rightarrow>
     (case safe_serial_write dev '':NUMERIC:NORMAL:VALUE?\<newline>'' w of
        (False, w) \<Rightarrow> (Inl (Exception ''Failed to send numeric query''), w)
      | (True, w) \<Rightarrow>
     (case safe_serial_read dev w of
        (response, w) \<Rightarrow>
          (case record_measurement integration_interval_seconds response w of
             (cycle_error, w) \<Rightarrow> (Inr cycle_error, w)))))))"

text \<open>
  One round of the measurement loop: the body and the handlers of the inner \<^verbatim>\<open>try\<close>.
  The result is \<open>True\<close> when the loop goes on and \<open>False\<close> after \<^verbatim>\<open>break\<close>. The two
  \<^verbatim>\<open>safe_serial\<close> functions catch every exception of the link, so the body raises only
  the two kinds of \<open>exc\<close>. \<^verbatim>\<open>TimeoutError\<close> is a subclass of \<^verbatim>\<open>OSError\<close>, which
  \<^verbatim>\<open>IOError\<close> names, so the handler of \<^verbatim>\<open>IOError\<close> takes it, before the handler of
  \<^verbatim>\<open>TimeoutError\<close> is reached; both print and leave the loop. Any other exception is
  reported, followed by a pause of one second, and the loop goes on.
\<close>

definition integration_cycle :: "device \<Rightarrow> int \<Rightarrow> nat \<Rightarrow> world \<Rightarrow> bool \<times> world" where
  "integration_cycle dev integration_interval_seconds loop_count w =
     (case cycle_body dev integration_interval_seconds w of
        (Inl (TimeoutError e), w) \<Rightarrow> (False, print (ErrFile e) w)
      | (Inl (Exception e), w) \<Rightarrow>
          (True, print (CycleWithErrors loop_count) (sleep 1000 (print (ErrCycle e) w)))
      | (Inr cycle_error, w) \<Rightarrow>
          (True, print (if cycle_error then CycleWithErrors loop_count
                        else CycleSuccessful loop_count) w))"

text \<open>
  The measurement loop \<^verbatim>\<open>while True\<close>. It runs until a \<^verbatim>\<open>break\<close> or until the operator
  interrupts it; \<open>cycles\<close> is the number of cycles the operator lets it begin. The result
  holds \<^verbatim>\<open>loop_count\<close>, the number of cycles begun.
\<close>

fun measurement_loop :: "device \<Rightarrow> int \<Rightarrow> nat \<Rightarrow> nat \<Rightarrow> world \<Rightarrow> nat \<times> world" where
  "measurement_loop dev integration_interval_seconds 0 loop_count w = (loop_count, w)"
| "measurement_loop dev integration_interval_seconds (Suc cycles) loop_count w =
     (let loop_count = loop_count + 1 in
      case integration_cycle dev integration_interval_seconds loop_count w of
        (True, w) \<Rightarrow> measurement_loop dev integration_interval_seconds cycles loop_count w
      | (False, w) \<Rightarrow> (loop_count, w))"

definition csv_header :: "cell list" where
  "csv_header =
     [Text ''Timestamp'', Text ''Interval Avg Power (W)'', Text ''Interval WattHours (Wh)'',
      Text ''End Interval V+pk (V)'', Text ''End Interval Current (A)'',
      Text ''End Interval Inst Power (W)'']"

text \<open>
  The whole integration script, from the open port to \<^verbatim>\<open>sys.exit\<close>: the exit status,
  the number of cycles begun and the final state. \<open>old_rows\<close> is the content of the CSV
  file found at start. A failed configuration exits with status 1; otherwise the header
  is written to an empty file, the loop runs, and the clean-up sends the stop command.
\<close>

definition session :: "device \<Rightarrow> int \<Rightarrow> cell list list \<Rightarrow> nat \<Rightarrow> nat \<times> nat \<times> world" where
  "session dev integration_interval_seconds old_rows cycles =
     (let w = \<lparr>clock = 0, wcount = 0, rcount = 0, wire = [], console = [], csv = old_rows\<rparr>
      in case configure dev integration_interval_seconds w of
           (Some e, w) \<Rightarrow> (1, 0, print (FatalConfig e) w)
         | (None, w) \<Rightarrow>
             (let w = (if csv w = [] then w\<lparr>csv := [csv_header]\<rparr> else w)
              in case measurement_loop dev integration_interval_seconds cycles 0 w of
                   (loop_count, w) \<Rightarrow>
                     (case safe_serial_write dev '':INTegrate:STOP\<newline>'' w of
                        (False, w) \<Rightarrow> (0, loop_count, print WarnStopNotSent w)
                      | (True, w) \<Rightarrow> (0, loop_count, w))))"

section \<open>Notions used in the properties\<close>

text \<open>Every row of the CSV file has \<open>n\<close> cells.\<close>

definition columns :: "nat \<Rightarrow> world \<Rightarrow> bool" where
  "columns n w = (\<forall>row \<in> set (csv w). length row = n)"

text \<open>
  The positions, among the \<^verbatim>\<open>write\<close> calls of a block of statements, of the calls made
  by the \<open>Must\<close> statements (the set commands), when the first call of the block is
  call number \<open>k\<close>. Every statement but a pause makes one call.
\<close>

fun must_writes :: "nat \<Rightarrow> step list \<Rightarrow> nat list" where
  "must_writes k [] = []"
| "must_writes k (Must command message # sts) = k # must_writes (k + 1) sts"
| "must_writes k (Pause ms # sts) = must_writes k sts"
| "must_writes k (Identify # sts) = must_writes (k + 1) sts"
| "must_writes k (Query command label # sts) = must_writes (k + 1) sts"

text \<open>
  An outcome of \<^verbatim>\<open>readline\<close> on which the polling loop goes on: nothing usable arrived,
  or a line that names neither completion (\<^verbatim>\<open>TIM\<close>, \<^verbatim>\<open>TIMEUP\<close>) nor, unless it says
  \<^verbatim>\<open>RUN\<close>, one of \<^verbatim>\<open>STOP\<close>, \<^verbatim>\<open>RESET\<close>, \<^verbatim>\<open>OVERFLOW\<close>.
\<close>

definition waiting :: "readline_result \<Rightarrow> bool" where
  "waiting r =
     (case r of
        Bytes bs \<Rightarrow>
          (let u = upper (strip bs) in
           bs = [] \<or>
           (\<not> str_in ''TIM'' u \<and> \<not> str_in ''TIMEUP'' u
            \<and> (str_in ''RUN'' u \<or> str_in ''RUNNING'' u
               \<or> (\<not> str_in ''STOP'' u \<and> \<not> str_in ''RESET'' u \<and> \<not> str_in ''OVERFLOW'' u))))
      | _ \<Rightarrow> True)"

text \<open>
  The order of commands on the link, as a monitor. The instrument is \<open>Idle\<close>, \<open>Armed\<close>
  (the reset was the last command sent) or \<open>InFlight\<close> (an integration was started and
  no answer that ends the polling has been read yet). An answer ends the polling when
  it names completion, or, unless it says \<^verbatim>\<open>RUN\<close>, a stop, a reset or an overflow.
\<close>

datatype phase = Idle | Armed | InFlight

definition terminal :: "string \<Rightarrow> bool" where
  "terminal x =
     (let u = upper x in
      str_in ''TIM'' u \<or> str_in ''TIMEUP'' u
      \<or> (\<not> (str_in ''RUN'' u \<or> str_in ''RUNNING'' u)
         \<and> (str_in ''STOP'' u \<or> str_in ''RESET'' u \<or> str_in ''OVERFLOW'' u)))"

text \<open>
  One event; \<open>None\<close> is a violation. A start is allowed only right after a reset. After
  the reset nothing but the start may be sent. While an integration is in flight only
  state queries (and the final stop) may be sent: no reset, no start and no numeric query.
\<close>

definition phase_step :: "phase \<Rightarrow> wire_event \<Rightarrow> phase option" where
  "phase_step p e =
     (case e of
        Sent c \<Rightarrow>
          if c = '':INTegrate:STARt\<newline>'' then (if p = Armed then Some InFlight else None)
          else
            (case p of
               Idle \<Rightarrow> Some (if c = '':INTegrate:RESet\<newline>'' then Armed else Idle)
             | Armed \<Rightarrow> None
             | InFlight \<Rightarrow>
                 if c = '':INTEGRATE:STATE?\<newline>'' then Some InFlight
                 else if c = '':INTegrate:STOP\<newline>'' then Some Idle
                 else None)
      | SendFailed c \<Rightarrow> Some (if p = Armed then Idle else p)
      | Received r \<Rightarrow>
          (case r of
             Some x \<Rightarrow> Some (if p = InFlight \<and> terminal x then Idle else p)
           | None \<Rightarrow> Some p))"

fun monitor :: "phase \<Rightarrow> wire_event list \<Rightarrow> phase option" where
  "monitor p [] = Some p"
| "monitor p (e # es) = (case phase_step p e of None \<Rightarrow> None | Some q \<Rightarrow> monitor q es)"

text \<open>The phase the monitor has reached on the record of the link.\<close>

definition phase_of :: "world \<Rightarrow> phase option" where
  "phase_of w = monitor Idle (wire w)"

text \<open>The command a statement of the configuration writes.\<close>

definition command_of :: "step \<Rightarrow> string option" where
  "command_of st =
     (case st of
        Identify \<Rightarrow> Some ''*IDN?\<newline>''
      | Must command message \<Rightarrow> Some command
      | Query command label \<Rightarrow> Some command
      | Pause ms \<Rightarrow> None)"

section \<open>Scenarios\<close>

text \<open>The state at the start of a session with an empty CSV file.\<close>

definition fresh :: world where
  "fresh = \<lparr>clock = 0, wcount = 0, rcount = 0, wire = [], console = [], csv = []\<rparr>"

text \<open>An instrument that never answers: every \<^verbatim>\<open>readline\<close> times out after 2 s.\<close>

definition silent_device :: device where
  "silent_device = \<lparr>on_write = (\<lambda>k. WriteOk), write_ms = (\<lambda>k. 0),
     on_read = (\<lambda>k. Bytes []), read_ms = (\<lambda>k. 2000)\<rparr>"

text \<open>A link that delivers two bytes that are not UTF-8.\<close>

definition garbled_device :: device where
  "garbled_device = \<lparr>on_write = (\<lambda>k. WriteOk), write_ms = (\<lambda>k. 0),
     on_read = (\<lambda>k. Undecodable [CHR 0xFF, CHR 0xFE]), read_ms = (\<lambda>k. 5)\<rparr>"

text \<open>
  An instrument that identifies itself, on a link where the write of the timer command
  (the fourth \<^verbatim>\<open>write\<close> call) times out.
\<close>

definition timer_fault_device :: device where
  "timer_fault_device = \<lparr>on_write = (\<lambda>k. if k = 3 then WriteTimeout else WriteOk),
     write_ms = (\<lambda>k. 0), on_read = (\<lambda>k. Bytes ''TELEDYNE,T3PM1006\<newline>''),
     read_ms = (\<lambda>k. 0)\<rparr>"

text \<open>
  An instrument that identifies itself and then answers nothing, on a link where the
  writes of all four verification queries fail.
\<close>

definition query_fault_device :: device where
  "query_fault_device =
     \<lparr>on_write = (\<lambda>k. if k \<in> {4, 5, 6, 12} then WriteSerialError else WriteOk),
      write_ms = (\<lambda>k. 0),
      on_read = (\<lambda>k. if k = 0 then Bytes ''TELEDYNE,T3PM1006\<newline>'' else Bytes []),
      read_ms = (\<lambda>k. 0)\<rparr>"

text \<open>
  An instrument that answers \<^verbatim>\<open>RUNNING\<close>, \<^verbatim>\<open>RUNNING\<close>, \<^verbatim>\<open>TIMEUP\<close> and then the four
  values of a measurement.
\<close>

definition timeup_device :: device where
  "timeup_device =
     \<lparr>on_write = (\<lambda>k. WriteOk), write_ms = (\<lambda>k. 0),
      on_read = (\<lambda>k. if k < 2 then Bytes ''RUNNING''
                       else if k = 2 then Bytes ''TIMEUP''
                       else Bytes ''12.5,0.8,9.2,0.002778''),
      read_ms = (\<lambda>k. 0)\<rparr>"

text \<open>An instrument that answers \<^verbatim>\<open>STOP\<close> to everything.\<close>

definition stop_device :: device where
  "stop_device = \<lparr>on_write = (\<lambda>k. WriteOk), write_ms = (\<lambda>k. 0),
     on_read = (\<lambda>k. Bytes ''STOP''), read_ms = (\<lambda>k. 0)\<rparr>"

text \<open>An instrument whose integration never ends: it answers \<^verbatim>\<open>RUNNING\<close> to everything.\<close>

definition stuck_device :: device where
  "stuck_device = \<lparr>on_write = (\<lambda>k. WriteOk), write_ms = (\<lambda>k. 0),
     on_read = (\<lambda>k. Bytes ''RUNNING''), read_ms = (\<lambda>k. 0)\<rparr>"

text \<open>
  An instrument that is too late: it answers \<^verbatim>\<open>RUNNING\<close> a thousand times and
  \<^verbatim>\<open>TIMEUP\<close> from then on.
\<close>

definition late_device :: device where
  "late_device = \<lparr>on_write = (\<lambda>k. WriteOk), write_ms = (\<lambda>k. 0),
     on_read = (\<lambda>k. if k < 1000 then Bytes ''RUNNING'' else Bytes ''TIMEUP''),
     read_ms = (\<lambda>k. 0)\<rparr>"

section \<open>Properties\<close>

subsection \<open>The clock and the end of the polling loop\<close>

lemma clock_write_ok: "(True, w') = safe_serial_write dev c w \<Longrightarrow> clock w + 100 \<le> clock w'"
  by (auto simp: safe_serial_write_def Let_def sleep_def emit_def print_def
      split: write_result.splits)

lemma clock_write_fail: "(False, w') = safe_serial_write dev c w \<Longrightarrow> clock w \<le> clock w'"
  by (auto simp: safe_serial_write_def Let_def sleep_def emit_def print_def
      split: write_result.splits)

lemma clock_read: "(r, w') = safe_serial_read dev w \<Longrightarrow> clock w \<le> clock w'"
  by (auto simp: safe_serial_read_def Let_def emit_def print_def
      split: readline_result.splits if_splits)

termination poll_state
  by (relation "measure (\<lambda>(dev, t, s, w). nat (t - (int (clock w) - int s) + 1))")
     (auto simp: sleep_def print_def dest!: clock_write_ok clock_write_fail clock_read)

declare poll_state.simps [simp del]

subsection \<open>What a write and a read do to the state\<close>

lemmas text_defs = strip_def is_space_def upper_def upper_char_def lower_char_def

text \<open>A number without exponent below \<open>2^64\<close> is far from the overflow of \<^verbatim>\<open>float()\<close>.\<close>

lemma no_overflow: "n < 2 ^ 64 \<Longrightarrow> e \<le> 0 \<Longrightarrow> \<not> overflows n e"
proof -
  assume n: "n < 2 ^ 64" and e: "e \<le> 0"
  have "(of_nat n :: rat) / 10 ^ nat (- e) \<le> of_nat n / 1"
    by (rule divide_left_mono) simp_all
  then have "(of_nat n :: rat) / 10 ^ nat (- e) \<le> of_nat n"
    by simp
  moreover have "(of_nat n :: rat) < of_nat (2 ^ 64)"
    using n by (simp only: of_nat_less_iff)
  moreover have "(2::rat) ^ 64 \<le> 2 ^ 970"
    by (rule power_increasing) simp_all
  moreover have "(2::rat) ^ 970 + 2 ^ 970 = 2 ^ 971"
    by simp
  moreover have "(2::rat) ^ 971 \<le> 2 ^ 1024"
    by (rule power_increasing) simp_all
  ultimately have "scale10 (of_nat n) e < float_overflow"
    using e unfolding float_overflow_def scale10_def by (cases "e = 0") auto
  then show ?thesis
    by (simp add: overflows_def)
qed

lemmas float_defs = py_float_def float_strip_def is_float_space_def abs_float_def number_def
  digitpart_def is_digit_def exponent_def scale10_def digit_val_def negate_def
  float_or_zero_def no_overflow

lemma safe_serial_write_effect:
  assumes "safe_serial_write dev c w = (ok, w')"
  shows "ok = (on_write dev (wcount w) = WriteOk)"
    and "wcount w' = wcount w + 1" and "rcount w' = rcount w" and "csv w' = csv w"
    and "wire w' = wire w @ [if ok then Sent c else SendFailed c]"
    and "clock w' = clock w + write_ms dev (wcount w) + (if ok then 100 else 0)"
  using assms
  by (auto simp: safe_serial_write_def Let_def sleep_def emit_def print_def
      split: write_result.splits)

lemma safe_serial_read_effect:
  assumes "safe_serial_read dev w = (r, w')"
  shows "r = (case on_read dev (rcount w) of
                Bytes bs \<Rightarrow> if bs \<noteq> [] then Some (strip bs) else None
              | _ \<Rightarrow> None)"
    and "wcount w' = wcount w" and "rcount w' = rcount w + 1" and "csv w' = csv w"
    and "wire w' = wire w @ [Received r]"
    and "clock w' = clock w + read_ms dev (rcount w)"
  using assms
  by (auto simp: safe_serial_read_def Let_def emit_def print_def
      split: readline_result.splits if_splits)

subsection \<open>One round of the polling loop\<close>

lemma poll_state_round:
  assumes "safe_serial_write dev '':INTEGRATE:STATE?\<newline>'' w = (ok, w1)"
    and "safe_serial_read dev w1 = (r, w2)"
  shows "poll_state dev t s w =
     (if int (clock w) - int s > t
      then (Some (TimeoutError ''waiting for TIMEUP/TIM state''), w)
      else if \<not> ok then
        (if int (clock (sleep 1000 (print WarnStateSendFailed w1))) - int s > t
         then (Some (TimeoutError ''after failing to send STATE query''),
               sleep 1000 (print WarnStateSendFailed w1))
         else poll_state dev t s (sleep 1000 (print WarnStateSendFailed w1)))
      else
        (case r of
           None \<Rightarrow>
             if int (clock (print WarnNoStateResponse w2)) - int s > t
             then (Some (TimeoutError ''after failing to read STATE response''),
                   print WarnNoStateResponse w2)
             else poll_state dev t s (print WarnNoStateResponse w2)
         | Some state_response \<Rightarrow>
             if str_in ''TIM'' (upper state_response) \<or> str_in ''TIMEUP'' (upper state_response)
             then (None, w2)
             else if str_in ''RUN'' (upper state_response)
                     \<or> str_in ''RUNNING'' (upper state_response)
             then poll_state dev t s (sleep 400 w2)
             else if str_in ''STOP'' (upper state_response)
                     \<or> str_in ''RESET'' (upper state_response)
             then (Some (Exception (''Integration stopped unexpectedly: '' @ upper state_response)),
                   print (ErrStopped (upper state_response)) w2)
             else if str_in ''OVERFLOW'' (upper state_response)
             then (Some (Exception (''Integration overflow: '' @ upper state_response)),
                   print (ErrOverflow (upper state_response)) w2)
             else poll_state dev t s
                    (sleep 500 (print (WarnUnexpectedState (upper state_response)) w2))))"
  by (subst poll_state.simps) (simp add: assms Let_def split: bool.splits option.splits)

subsection \<open>Timer conversion\<close>

text \<open>
  C2. For every integer \<open>s\<close> from 0 up to the largest encodable duration,
  \<open>seconds_to_hms s\<close> is \<open>(s div 3600, (s mod 3600) div 60, s mod 60)\<close>, the hours are
  at most 9999 (the clamp leaves them unchanged), the three parts add up to \<open>s\<close> again,
  and minutes and seconds lie in \<open>0..59\<close>.
\<close>

theorem seconds_to_hms_exact:
  assumes "0 \<le> s" and "s \<le> max_encodable_seconds"
  shows "seconds_to_hms s = (s div 3600, (s mod 3600) div 60, s mod 60)
       \<and> (case seconds_to_hms s of (h, m, s') \<Rightarrow>
            h = min (s div 3600) 9999 \<and> 0 \<le> h \<and> h \<le> 9999
          \<and> h * 3600 + m * 60 + s' = s
          \<and> 0 \<le> m \<and> m < 60 \<and> 0 \<le> s' \<and> s' < 60)"
proof -
  have "s div 3600 \<le> 35999999 div 3600"
    using assms(2) unfolding max_encodable_seconds_def by (intro zdiv_mono1) simp_all
  then have h: "s div 3600 \<le> 9999"
    by simp
  have h0: "0 \<le> s div 3600"
    using assms(1) by (simp add: pos_imp_zdiv_nonneg_iff)
  have "s mod 3600 \<le> 3599"
    using pos_mod_bound [of 3600 s] by simp
  then have "(s mod 3600) div 60 \<le> 3599 div 60"
    by (rule zdiv_mono1) simp
  then have m: "(s mod 3600) div 60 < 60"
    by simp
  have m0: "0 \<le> (s mod 3600) div 60"
    by (simp add: pos_imp_zdiv_nonneg_iff)
  have "s mod 60 = (s mod 3600) mod 60"
    by (simp add: mod_mod_cancel)
  then have "(s mod 3600) div 60 * 60 + s mod 60 = s mod 3600"
    by simp
  then have r: "s div 3600 * 3600 + (s mod 3600) div 60 * 60 + s mod 60 = s"
    by (simp add: add.assoc)
  show ?thesis
    using h h0 m m0 r by (simp add: seconds_to_hms_def Let_def min_def)
qed

theorem seconds_to_hms_exact_witness:
  "(0::int) \<le> 3725 \<and> 3725 \<le> max_encodable_seconds \<and> seconds_to_hms 3725 = (1, 2, 5)
   \<and> seconds_to_hms max_encodable_seconds = (9999, 59, 59)"
  using seconds_to_hms_exact [of 3725] seconds_to_hms_exact [of max_encodable_seconds]
  by (simp add: max_encodable_seconds_def)

subsection \<open>Outcomes of a read\<close>

text \<open>
  C6, as stated, fails: a read that timed out and a read of undecodable bytes return
  the same value \<open>None\<close>, so the caller cannot tell them apart.
\<close>

theorem safe_serial_read_same_outcome:
  "fst (safe_serial_read silent_device fresh) = None
   \<and> fst (safe_serial_read garbled_device fresh) = None
   \<and> fst (safe_serial_read silent_device fresh) = fst (safe_serial_read garbled_device fresh)"
  by (simp add: safe_serial_read_def silent_device_def garbled_device_def fresh_def Let_def
      emit_def print_def)

text \<open>
  C6, amended. \<open>safe_serial_read\<close> returns the stripped text of a line that arrived and
  decoded, and \<open>None\<close> in every other case: no data, undecodable bytes, a serial error
  and any other exception are one outcome for the caller. They differ on the console
  only: nothing is printed when no data arrived, and undecodable bytes are printed in
  an error message that carries the raw bytes.
\<close>

theorem safe_serial_read_outcomes:
  "(\<forall>bs. on_read dev (rcount w) = Bytes bs \<and> bs \<noteq> [] \<longrightarrow>
      fst (safe_serial_read dev w) = Some (strip bs)
      \<and> console (snd (safe_serial_read dev w)) = console w)
   \<and> (on_read dev (rcount w) = Bytes [] \<longrightarrow>
      fst (safe_serial_read dev w) = None
      \<and> console (snd (safe_serial_read dev w)) = console w)
   \<and> (\<forall>bs. on_read dev (rcount w) = Undecodable bs \<and> bs \<noteq> [] \<longrightarrow>
      fst (safe_serial_read dev w) = None
      \<and> console (snd (safe_serial_read dev w)) = console w @ [ErrReadDecode bs])
   \<and> (on_read dev (rcount w) = ReadSerialError \<longrightarrow>
      fst (safe_serial_read dev w) = None
      \<and> console (snd (safe_serial_read dev w)) = console w @ [ErrReadSerial])
   \<and> (on_read dev (rcount w) = ReadError \<longrightarrow>
      fst (safe_serial_read dev w) = None
      \<and> console (snd (safe_serial_read dev w)) = console w @ [ErrReadUnexpected])"
  by (simp add: safe_serial_read_def Let_def emit_def print_def)

theorem safe_serial_read_outcomes_witness:
  "on_read garbled_device (rcount fresh) = Undecodable [CHR 0xFF, CHR 0xFE]
   \<and> fst (safe_serial_read garbled_device fresh) = None
   \<and> console (snd (safe_serial_read garbled_device fresh)) = [ErrReadDecode [CHR 0xFF, CHR 0xFE]]
   \<and> on_read silent_device (rcount fresh) = Bytes []
   \<and> console (snd (safe_serial_read silent_device fresh)) = []"
  using safe_serial_read_outcomes [of garbled_device fresh]
    safe_serial_read_outcomes [of silent_device fresh]
  by (simp add: garbled_device_def silent_device_def fresh_def)

subsection \<open>Average power\<close>

text \<open>
  C7. For an interval of at least one second the average power is the energy divided
  by the interval in hours; for an interval that is not positive (its length in hours is
  not above the guard) it is \<open>0.0\<close>. With an interval of 10 s and the energy
  \<open>0.002778\<close> Wh the result is \<open>1.00008\<close> W, within \<open>0.0001\<close> of 1 W. Floats are
  taken as exact rationals.
\<close>

theorem average_power_formula:
  "(1 \<le> i \<longrightarrow> average_power i (Finite e) = Finite (e / (of_int i / 3600)))
   \<and> (i \<le> 0 \<longrightarrow> average_power i x = Finite 0)
   \<and> py_float ''0.002778'' = Some (Finite (2778 / 1000000))
   \<and> average_power 10 (Finite (2778 / 1000000)) = Finite (12501 / 12500)
   \<and> \<bar>12501 / 12500 - 1 :: rat\<bar> < 1 / 10000"
proof -
  have a: "average_power i (Finite e) = Finite (e / (of_int i / 3600))" if "1 \<le> i"
  proof -
    have "(1::rat) \<le> of_int i"
      using that by simp
    then have "(of_int i :: rat) / 3600 > 1 / 10 ^ 9"
      by simp
    then show ?thesis
      by (simp add: average_power_def Let_def fdiv_def)
  qed
  have b: "average_power i x = Finite 0" if "i \<le> 0"
  proof -
    have "(of_int i :: rat) \<le> 0"
      using that by simp
    then have "\<not> (of_int i :: rat) / 3600 > 1 / 10 ^ 9"
      by (simp add: field_simps)
    then show ?thesis
      by (simp add: average_power_def Let_def)
  qed
  have c: "py_float ''0.002778'' = Some (Finite (2778 / 1000000))"
    by (simp add: float_defs text_defs)
  have d: "average_power 10 (Finite (2778 / 1000000)) = Finite (12501 / 12500)"
    by (simp add: average_power_def Let_def fdiv_def)
  show ?thesis
    using a b c d by simp
qed

theorem average_power_formula_witness:
  "(1::int) \<le> 3600 \<and> average_power 3600 (Finite 7) = Finite 7
   \<and> (0::int) \<le> 0 \<and> average_power 0 (Finite 7) = Finite 0"
  using average_power_formula [of 3600 7] average_power_formula [of 0 _ "Finite 7"] by simp

subsection \<open>Empty fields\<close>

text \<open>
  C5. The integration script converts an empty field to \<open>0.0\<close>: the response
  \<^verbatim>\<open>12.5,,9.2,0.002778\<close> is written as a row whose current is 0. The averaging script
  hands the empty field to \<^verbatim>\<open>float()\<close>, which raises: the response \<^verbatim>\<open>12.5,,9.2\<close> is
  reported as a parse error and no row is written.
\<close>

theorem empty_field_in_both_scripts:
  "float_or_zero [] = Some (Finite 0)
   \<and> record_measurement 10 (Some ''12.5,,9.2,0.002778'') fresh =
       (False, fresh\<lparr>csv := [[Stamp 0, Fixed 4 (Finite (12501 / 12500)),
          Fixed 6 (Finite (1389 / 500000)), Fixed 4 (Finite (25 / 2)), Fixed 4 (Finite 0),
          Fixed 4 (Finite (46 / 5))]]\<rparr>)
   \<and> py_float [] = None
   \<and> record_average ''12.5,,9.2'' fresh = print (ErrParse ''12.5,,9.2'') fresh"
  by (simp add: record_measurement_def record_average_def convert4_def convert3_def
      float_defs text_defs fresh_def average_power_def fdiv_def Let_def print_def)

subsection \<open>Decoding by number of fields\<close>

lemma convert4_take: "convert4 (take 4 vs) = convert4 vs"
  by (simp add: convert4_def cong: option.case_cong)

lemma convert3_take: "convert3 (take 3 vs) = convert3 vs"
  by (simp add: convert3_def cong: option.case_cong)

lemma convert4_Some_iff:
  "(convert4 vs \<noteq> None) = (\<forall>j<4. vs ! j = [] \<or> py_float (vs ! j) \<noteq> None)"
proof -
  have "(\<forall>j<4. P j) = (P 0 \<and> P 1 \<and> P 2 \<and> P (3::nat))" for P
    by (auto simp: less_Suc_eq numeral_eq_Suc)
  then show ?thesis
    by (auto simp: convert4_def float_or_zero_def split: option.splits)
qed

lemma convert3_Some_iff:
  "(convert3 vs \<noteq> None) = (\<forall>j<3. py_float (vs ! j) \<noteq> None)"
proof -
  have "(\<forall>j<3. P j) = (P 0 \<and> P 1 \<and> P (2::nat))" for P
    by (auto simp: less_Suc_eq numeral_eq_Suc)
  then show ?thesis
    by (auto simp: convert3_def split: option.splits)
qed

lemma take_eq_length_ge: "take n xs = take n ys \<Longrightarrow> n \<le> length ys \<Longrightarrow> n \<le> length xs"
  by (metis length_take min.absorb2 min.cobounded1)

lemma record_measurement_ok:
  assumes "response \<noteq> []" "4 \<le> length (split_comma response)"
    "convert4 (split_comma response) = Some (pv, c, p, wh)"
  shows "record_measurement i (Some response) w =
     (False, w\<lparr>csv := csv w @ [[Stamp (clock w), Fixed 4 (average_power i wh), Fixed 6 wh,
         Fixed 4 pv, Fixed 4 c, Fixed 4 p]]\<rparr>)"
  using assms by (simp add: record_measurement_def Let_def)

lemma record_average_ok:
  assumes "response \<noteq> []" "3 \<le> length (split_comma response)"
    "convert3 (split_comma response) = Some (pv, c, p)"
  shows "record_average response w =
     w\<lparr>csv := csv w @ [[Stamp (clock w), Plain pv, Plain c, Plain p]]\<rparr>"
  using assms by (simp add: record_average_def Let_def)

text \<open>
  C4. Let \<open>N\<close> be the number of items: 4 in the integration script, 3 in the averaging
  script.
  \<^item> A non-empty response with at least \<open>N\<close> fields of which the first \<open>N\<close> are numeric
    (\<^verbatim>\<open>float()\<close> accepts them; the integration script accepts an empty field too) is
    decoded: one row is written, and the integration script leaves the cycle unmarked.
    Fields beyond the first \<open>N\<close> are ignored: any other response with the same first
    \<open>N\<close> fields has the same effect.
  \<^item> A response with fewer than \<open>N\<close> fields is not decoded: no row is written, the
    integration script marks the cycle failed, and, the response being non-empty, the
    warning printed carries the number of fields and the raw response.
\<close>

theorem decode_by_field_count:
  "(response \<noteq> [] \<and> 4 \<le> length (split_comma response)
      \<and> (\<forall>j<4. split_comma response ! j = [] \<or> py_float (split_comma response ! j) \<noteq> None)
    \<longrightarrow> (\<exists>row. record_measurement i (Some response) w = (False, w\<lparr>csv := csv w @ [row]\<rparr>))
      \<and> (\<forall>r'. r' \<noteq> [] \<and> take 4 (split_comma r') = take 4 (split_comma response) \<longrightarrow>
            record_measurement i (Some r') w = record_measurement i (Some response) w))
   \<and> (length (split_comma response) < 4
    \<longrightarrow> fst (record_measurement i (Some response) w)
      \<and> csv (snd (record_measurement i (Some response) w)) = csv w
      \<and> (response \<noteq> [] \<longrightarrow>
            record_measurement i (Some response) w =
              (True, print (WarnFieldCount (length (split_comma response)) response) w)))
   \<and> (response \<noteq> [] \<and> 3 \<le> length (split_comma response)
      \<and> (\<forall>j<3. py_float (split_comma response ! j) \<noteq> None)
    \<longrightarrow> (\<exists>row. record_average response w = w\<lparr>csv := csv w @ [row]\<rparr>)
      \<and> (\<forall>r'. r' \<noteq> [] \<and> take 3 (split_comma r') = take 3 (split_comma response) \<longrightarrow>
            record_average r' w = record_average response w))
   \<and> (length (split_comma response) < 3
    \<longrightarrow> csv (record_average response w) = csv w
      \<and> (response \<noteq> [] \<longrightarrow>
            record_average response w =
              print (WarnFieldCount (length (split_comma response)) response) w))"
proof (intro conjI impI allI)
  assume a: "response \<noteq> [] \<and> 4 \<le> length (split_comma response)
     \<and> (\<forall>j<4. split_comma response ! j = [] \<or> py_float (split_comma response ! j) \<noteq> None)"
  then have ne: "response \<noteq> []"
    by simp
  obtain pv c p wh where s: "convert4 (split_comma response) = Some (pv, c, p, wh)"
    using a convert4_Some_iff [of "split_comma response"] by auto
  show "\<exists>row. record_measurement i (Some response) w = (False, w\<lparr>csv := csv w @ [row]\<rparr>)"
    using record_measurement_ok [OF ne _ s] a by blast
  fix r'
  assume b: "r' \<noteq> [] \<and> take 4 (split_comma r') = take 4 (split_comma response)"
  then have l: "4 \<le> length (split_comma r')"
    using a take_eq_length_ge by blast
  have "convert4 (split_comma r') = convert4 (split_comma response)"
    using b convert4_take [of "split_comma r'"] convert4_take [of "split_comma response"] by simp
  then show "record_measurement i (Some r') w = record_measurement i (Some response) w"
    using record_measurement_ok [OF ne _ s] record_measurement_ok [of r' pv c p wh] a b l s
    by simp
next
  assume "length (split_comma response) < 4"
  then show "fst (record_measurement i (Some response) w)"
    by (simp add: record_measurement_def Let_def)
next
  assume "length (split_comma response) < 4"
  then show "csv (snd (record_measurement i (Some response) w)) = csv w"
    by (simp add: record_measurement_def Let_def print_def)
next
  assume "length (split_comma response) < 4" and "response \<noteq> []"
  then show "record_measurement i (Some response) w =
      (True, print (WarnFieldCount (length (split_comma response)) response) w)"
    by (simp add: record_measurement_def Let_def)
next
  assume a: "response \<noteq> [] \<and> 3 \<le> length (split_comma response)
     \<and> (\<forall>j<3. py_float (split_comma response ! j) \<noteq> None)"
  then have ne: "response \<noteq> []"
    by simp
  obtain pv c p where s: "convert3 (split_comma response) = Some (pv, c, p)"
    using a convert3_Some_iff [of "split_comma response"] by auto
  show "\<exists>row. record_average response w = w\<lparr>csv := csv w @ [row]\<rparr>"
    using record_average_ok [OF ne _ s] a by blast
  fix r'
  assume b: "r' \<noteq> [] \<and> take 3 (split_comma r') = take 3 (split_comma response)"
  then have l: "3 \<le> length (split_comma r')"
    using a take_eq_length_ge by blast
  have "convert3 (split_comma r') = convert3 (split_comma response)"
    using b convert3_take [of "split_comma r'"] convert3_take [of "split_comma response"] by simp
  then show "record_average r' w = record_average response w"
    using record_average_ok [OF ne _ s] record_average_ok [of r' pv c p] a b l s
    by simp
next
  assume "length (split_comma response) < 3"
  then show "csv (record_average response w) = csv w"
    by (simp add: record_average_def Let_def print_def)
next
  assume "length (split_comma response) < 3" and "response \<noteq> []"
  then show "record_average response w =
      print (WarnFieldCount (length (split_comma response)) response) w"
    by (simp add: record_average_def Let_def)
qed

theorem decode_by_field_count_witness:
  "record_measurement 10 (Some ''1,2,3,4,extra'') fresh = record_measurement 10 (Some ''1,2,3,4'') fresh
   \<and> fst (record_measurement 10 (Some ''1,2,3,4'') fresh) = False
   \<and> record_measurement 10 (Some ''1,2,3'') fresh = (True, print (WarnFieldCount 3 ''1,2,3'') fresh)
   \<and> record_average ''1,2,3,extra'' fresh = record_average ''1,2,3'' fresh
   \<and> record_average ''1,2'' fresh = print (WarnFieldCount 2 ''1,2'') fresh"
proof -
  have s4: "split_comma ''1,2,3,4'' = [''1'', ''2'', ''3'', ''4'']"
    and s5: "split_comma ''1,2,3,4,extra'' = [''1'', ''2'', ''3'', ''4'', ''extra'']"
    and s3: "split_comma ''1,2,3'' = [''1'', ''2'', ''3'']"
    and s3x: "split_comma ''1,2,3,extra'' = [''1'', ''2'', ''3'', ''extra'']"
    and s2: "split_comma ''1,2'' = [''1'', ''2'']"
    by simp_all
  have f: "py_float ''1'' \<noteq> None" "py_float ''2'' \<noteq> None" "py_float ''3'' \<noteq> None"
      "py_float ''4'' \<noteq> None"
    by (simp_all add: float_defs)
  have a4: "''1,2,3,4'' \<noteq> [] \<and> 4 \<le> length (split_comma ''1,2,3,4'')
     \<and> (\<forall>j<4. split_comma ''1,2,3,4'' ! j = [] \<or> py_float (split_comma ''1,2,3,4'' ! j) \<noteq> None)"
    unfolding s4 using f by (auto simp: less_Suc_eq numeral_eq_Suc)
  have a3: "''1,2,3'' \<noteq> [] \<and> 3 \<le> length (split_comma ''1,2,3'')
     \<and> (\<forall>j<3. py_float (split_comma ''1,2,3'' ! j) \<noteq> None)"
    unfolding s3 using f by (auto simp: less_Suc_eq numeral_eq_Suc)
  note t4 = decode_by_field_count [of "''1,2,3,4''" 10 fresh]
  note t3 = decode_by_field_count [of "''1,2,3''" 10 fresh]
  note t2 = decode_by_field_count [of "''1,2''" 10 fresh]
  have r1: "\<exists>row. record_measurement 10 (Some ''1,2,3,4'') fresh = (False, fresh\<lparr>csv := csv fresh @ [row]\<rparr>)"
    and r2: "\<forall>r'. r' \<noteq> [] \<and> take 4 (split_comma r') = take 4 (split_comma ''1,2,3,4'') \<longrightarrow>
                record_measurement 10 (Some r') fresh = record_measurement 10 (Some ''1,2,3,4'') fresh"
    using t4 a4 by blast+
  have "''1,2,3,4,extra'' \<noteq> [] \<and> take 4 (split_comma ''1,2,3,4,extra'') = take 4 (split_comma ''1,2,3,4'')"
    unfolding s4 s5 by simp
  then have c1: "record_measurement 10 (Some ''1,2,3,4,extra'') fresh = record_measurement 10 (Some ''1,2,3,4'') fresh"
    using r2 by blast
  have c2: "fst (record_measurement 10 (Some ''1,2,3,4'') fresh) = False"
    using r1 by auto
  have "length (split_comma ''1,2,3'') < 4 \<and> ''1,2,3'' \<noteq> []"
    unfolding s3 by simp
  then have "record_measurement 10 (Some ''1,2,3'') fresh =
      (True, print (WarnFieldCount (length (split_comma ''1,2,3'')) ''1,2,3'') fresh)"
    using t3 by blast
  then have c3: "record_measurement 10 (Some ''1,2,3'') fresh = (True, print (WarnFieldCount 3 ''1,2,3'') fresh)"
    unfolding s3 by (simp add: numeral_eq_Suc)
  have r3: "\<forall>r'. r' \<noteq> [] \<and> take 3 (split_comma r') = take 3 (split_comma ''1,2,3'') \<longrightarrow>
                record_average r' fresh = record_average ''1,2,3'' fresh"
    using t3 a3 by blast
  have "''1,2,3,extra'' \<noteq> [] \<and> take 3 (split_comma ''1,2,3,extra'') = take 3 (split_comma ''1,2,3'')"
    unfolding s3 s3x by simp
  then have c4: "record_average ''1,2,3,extra'' fresh = record_average ''1,2,3'' fresh"
    using r3 by blast
  have "length (split_comma ''1,2'') < 3 \<and> ''1,2'' \<noteq> []"
    unfolding s2 by simp
  then have "record_average ''1,2'' fresh = print (WarnFieldCount (length (split_comma ''1,2'')) ''1,2'') fresh"
    using t2 by blast
  then have c5: "record_average ''1,2'' fresh = print (WarnFieldCount 2 ''1,2'') fresh"
    unfolding s2 by (simp add: numeral_eq_Suc)
  show ?thesis
    using c1 c2 c3 c4 c5 by blast
qed

subsection \<open>Rows of the CSV file\<close>

lemma csv_sleep [simp]: "csv (sleep n w) = csv w"
  by (simp add: sleep_def)

lemma csv_print [simp]: "csv (print m w) = csv w"
  by (simp add: print_def)

lemma csv_poll_state: "csv (snd (poll_state dev t s w)) = csv w"
proof (induction dev t s w rule: poll_state.induct)
  case (1 dev t s w)
  obtain ok w1 where wr: "safe_serial_write dev '':INTEGRATE:STATE?\<newline>'' w = (ok, w1)"
    by (cases "safe_serial_write dev '':INTEGRATE:STATE?\<newline>'' w")
  obtain r w2 where rd: "safe_serial_read dev w1 = (r, w2)"
    by (cases "safe_serial_read dev w1")
  have c1: "csv w1 = csv w"
    using wr by (simp add: safe_serial_write_effect)
  have c2: "csv w2 = csv w1"
    using rd by (simp add: safe_serial_read_effect)
  show ?case
    using "1.IH"(1-3) [OF _ wr [symmetric] _ rd [symmetric]] "1.IH"(4) [OF _ wr [symmetric]] c1 c2
    by (auto simp: poll_state_round [OF wr rd] split: option.splits)
qed

lemma csv_write: "safe_serial_write dev c w = (ok, w') \<Longrightarrow> csv w' = csv w"
  by (simp add: safe_serial_write_effect)

lemma csv_read: "safe_serial_read dev w = (r, w') \<Longrightarrow> csv w' = csv w"
  by (simp add: safe_serial_read_effect)

lemma csv_run_step: "csv (snd (run_step dev st w)) = csv w"
  by (cases st)
     (auto simp: run_step_def split: prod.splits bool.splits option.splits
       dest!: csv_write csv_read)

lemma csv_run_steps: "csv (snd (run_steps dev sts w)) = csv w"
proof (induction sts arbitrary: w)
  case Nil
  show ?case by simp
next
  case (Cons st sts)
  obtain r w1 where st: "run_step dev st w = (r, w1)"
    by (cases "run_step dev st w")
  then have "csv w1 = csv w"
    using csv_run_step [of dev st w] by simp
  then show ?case
    using Cons [of w1] st by (cases r) simp_all
qed

text \<open>What the decode-and-write block does to the file.\<close>

lemma record_measurement_csv:
  "(csv (snd (record_measurement i resp w)) = csv w \<and> fst (record_measurement i resp w))
   \<or> (\<exists>r row. resp = Some r \<and> r \<noteq> [] \<and> 4 \<le> length (split_comma r)
         \<and> convert4 (split_comma r) \<noteq> None \<and> length row = 6
         \<and> csv (snd (record_measurement i resp w)) = csv w @ [row]
         \<and> \<not> fst (record_measurement i resp w))"
  by (auto simp: record_measurement_def Let_def split: option.splits)

lemma record_average_csv:
  "csv (record_average r w) = csv w
   \<or> (\<exists>row. r \<noteq> [] \<and> 3 \<le> length (split_comma r)
         \<and> convert3 (split_comma r) \<noteq> None \<and> length row = 4
         \<and> csv (record_average r w) = csv w @ [row])"
  by (auto simp: record_average_def Let_def split: option.splits)

lemma columns_cong: "csv w' = csv w \<Longrightarrow> columns n w' = columns n w"
  by (simp add: columns_def)

lemma cycle_body_stages:
  assumes "safe_serial_write dev '':INTegrate:RESet\<newline>'' w = (ok1, w1)"
    and "safe_serial_write dev '':INTegrate:STARt\<newline>'' (sleep 300 w1) = (ok2, w2)"
    and "poll_state dev (i * 1500 + 5000) (clock (sleep 100 w2)) (sleep 100 w2) = (e, w3)"
    and "safe_serial_write dev '':NUMERIC:NORMAL:VALUE?\<newline>'' w3 = (ok4, w4)"
    and "safe_serial_read dev w4 = (response, w5)"
  shows "cycle_body dev i w =
     (if \<not> ok1 then (Inl (Exception ''Failed to send RESET command''), w1)
      else if \<not> ok2 then (Inl (Exception ''Failed to send START command''), w2)
      else case e of
        Some x \<Rightarrow> (Inl x, w3)
      | None \<Rightarrow>
          if \<not> ok4 then (Inl (Exception ''Failed to send numeric query''), w4)
          else (Inr (fst (record_measurement i response w5)),
                snd (record_measurement i response w5)))"
  using assms
  by (simp add: cycle_body_def Let_def split: prod.splits bool.splits option.splits)

lemma columns_cycle_body:
  assumes "columns 6 w"
  shows "columns 6 (snd (cycle_body dev i w))"
proof -
  obtain ok1 w1 where s1: "safe_serial_write dev '':INTegrate:RESet\<newline>'' w = (ok1, w1)"
    by (cases "safe_serial_write dev '':INTegrate:RESet\<newline>'' w")
  obtain ok2 w2 where s2: "safe_serial_write dev '':INTegrate:STARt\<newline>'' (sleep 300 w1) = (ok2, w2)"
    by (cases "safe_serial_write dev '':INTegrate:STARt\<newline>'' (sleep 300 w1)")
  obtain e w3 where s3:
    "poll_state dev (i * 1500 + 5000) (clock (sleep 100 w2)) (sleep 100 w2) = (e, w3)"
    by (cases "poll_state dev (i * 1500 + 5000) (clock (sleep 100 w2)) (sleep 100 w2)")
  obtain ok4 w4 where s4: "safe_serial_write dev '':NUMERIC:NORMAL:VALUE?\<newline>'' w3 = (ok4, w4)"
    by (cases "safe_serial_write dev '':NUMERIC:NORMAL:VALUE?\<newline>'' w3")
  obtain response w5 where s5: "safe_serial_read dev w4 = (response, w5)"
    by (cases "safe_serial_read dev w4")
  have c1: "csv w1 = csv w" and c2: "csv w2 = csv w1"
    using s1 s2 by (simp_all add: safe_serial_write_effect)
  have c3: "csv w3 = csv w2"
    using csv_poll_state [of dev "i * 1500 + 5000" "clock (sleep 100 w2)" "sleep 100 w2"] s3
    by simp
  have c4: "csv w4 = csv w3" and c5: "csv w5 = csv w4"
    using s4 s5 by (simp_all add: safe_serial_write_effect safe_serial_read_effect)
  have "columns 6 w5"
    using assms c1 c2 c3 c4 c5 by (simp add: columns_def)
  then have c6: "columns 6 (snd (record_measurement i response w5))"
    using record_measurement_csv [of i response w5] by (auto simp: columns_def)
  show ?thesis
    using assms c1 c2 c3 c4 c6
    by (auto simp: cycle_body_stages [OF s1 s2 s3 s4 s5] columns_def split: option.splits)
qed

lemma columns_integration_cycle:
  assumes "columns 6 w"
  shows "columns 6 (snd (integration_cycle dev i n w))"
proof -
  obtain r w1 where c: "cycle_body dev i w = (r, w1)"
    by (cases "cycle_body dev i w")
  then have "columns 6 w1"
    using columns_cycle_body [OF assms, of dev i] by simp
  then show ?thesis
    by (auto simp: integration_cycle_def c columns_def split: sum.splits exc.splits)
qed

lemma columns_measurement_loop:
  "columns 6 w \<Longrightarrow> columns 6 (snd (measurement_loop dev i cycles n w))"
proof (induction cycles arbitrary: n w)
  case 0
  then show ?case by simp
next
  case (Suc cycles)
  obtain go w1 where c: "integration_cycle dev i (n + 1) w = (go, w1)"
    by (cases "integration_cycle dev i (n + 1) w")
  then have "columns 6 w1"
    using columns_integration_cycle [OF Suc.prems, of dev i "n + 1"] by simp
  then show ?case
    using Suc.IH [of w1 "n + 1"] c by (cases go) (simp_all add: Let_def)
qed

lemma session_stages:
  assumes "configure dev i \<lparr>clock = 0, wcount = 0, rcount = 0, wire = [], console = [], csv = old_rows\<rparr>
             = (r, w1)"
    and "measurement_loop dev i cycles 0 (if csv w1 = [] then w1\<lparr>csv := [csv_header]\<rparr> else w1)
           = (n, w3)"
    and "safe_serial_write dev '':INTegrate:STOP\<newline>'' w3 = (ok, w4)"
  shows "session dev i old_rows cycles =
     (case r of
        Some e \<Rightarrow> (1, 0, print (FatalConfig e) w1)
      | None \<Rightarrow> (0, n, if ok then w4 else print WarnStopNotSent w4))"
  using assms by (cases r; cases ok) (simp_all add: session_def Let_def)

lemma columns_session:
  assumes "\<forall>row \<in> set old_rows. length row = 6"
  shows "columns 6 (snd (snd (session dev i old_rows cycles)))"
proof -
  define w0 where "w0 = \<lparr>clock = 0, wcount = 0, rcount = 0, wire = [], console = [], csv = old_rows\<rparr>"
  obtain r w1 where c: "configure dev i w0 = (r, w1)"
    by (cases "configure dev i w0")
  have c1: "csv w1 = old_rows"
    using csv_run_steps [of dev "config_steps i" w0] c by (simp add: configure_def w0_def)
  define w2 where "w2 = (if csv w1 = [] then w1\<lparr>csv := [csv_header]\<rparr> else w1)"
  have "columns 6 w2"
    using assms c1 by (auto simp: w2_def columns_def csv_header_def)
  then have l: "columns 6 (snd (measurement_loop dev i cycles 0 w2))"
    by (rule columns_measurement_loop)
  obtain n w3 where m: "measurement_loop dev i cycles 0 w2 = (n, w3)"
    by (cases "measurement_loop dev i cycles 0 w2")
  obtain ok w4 where s: "safe_serial_write dev '':INTegrate:STOP\<newline>'' w3 = (ok, w4)"
    by (cases "safe_serial_write dev '':INTegrate:STOP\<newline>'' w3")
  have "csv w4 = csv w3"
    using s by (simp add: safe_serial_write_effect)
  then have "columns 6 w4"
    using l m by (simp add: columns_def)
  moreover have "columns 6 w1"
    using assms c1 by (simp add: columns_def)
  ultimately show ?thesis
    unfolding session_stages [OF c [unfolded w0_def] m [unfolded w2_def] s]
    by (cases r) (simp_all add: columns_def)
qed

text \<open>
  C10. A cycle of the integration script either leaves the file as it was and is marked
  failed, or appends one row of six cells; it appends only when a response arrived
  with at least four fields whose first four all converted, and then the cycle is not
  marked failed. A round of the averaging script either leaves the file as it was or
  appends one row of four cells, only for a response with at least three fields that
  all converted. Hence rows stay complete: if every row found in the file at start has
  six cells, so has every row after the session, the header included (four cells in
  the averaging script).
\<close>

theorem rows_are_complete:
  "((csv (snd (record_measurement i resp w)) = csv w \<and> fst (record_measurement i resp w))
    \<or> (\<exists>r row. resp = Some r \<and> r \<noteq> [] \<and> 4 \<le> length (split_comma r)
          \<and> convert4 (split_comma r) \<noteq> None \<and> length row = 6
          \<and> csv (snd (record_measurement i resp w)) = csv w @ [row]
          \<and> \<not> fst (record_measurement i resp w)))
   \<and> (csv (record_average r w) = csv w
    \<or> (\<exists>row. r \<noteq> [] \<and> 3 \<le> length (split_comma r)
          \<and> convert3 (split_comma r) \<noteq> None \<and> length row = 4
          \<and> csv (record_average r w) = csv w @ [row]))
   \<and> ((\<forall>row \<in> set old_rows. length row = 6) \<longrightarrow>
        columns 6 (snd (snd (session dev i old_rows cycles))))
   \<and> (columns 4 w \<longrightarrow> columns 4 (record_average r w))"
proof -
  have "columns 4 (record_average r w)" if "columns 4 w"
    using record_average_csv [of r w] that by (auto simp: columns_def)
  then show ?thesis
    using record_measurement_csv [of i resp w] record_average_csv [of r w]
      columns_session
    by blast
qed

theorem rows_are_complete_witness:
  "columns 6 (snd (snd (session silent_device 10 [csv_header] 3)))
   \<and> columns 4 (record_average ''1,2,3'' fresh)"
proof -
  have "\<forall>row \<in> set [csv_header]. length row = 6"
    by (simp add: csv_header_def)
  moreover have "columns 4 fresh"
    by (simp add: columns_def fresh_def)
  ultimately show ?thesis
    using rows_are_complete [of 10 None fresh "''1,2,3''" "[csv_header]" silent_device 3]
    by blast
qed

subsection \<open>Configuration\<close>

lemma must_writes_config: "must_writes 0 (config_steps i) = [1, 2, 3, 7, 8, 9, 10, 11]"
  by (simp add: config_steps_def)

lemma must_writes_ge: "k \<in> set (must_writes n sts) \<Longrightarrow> n \<le> k"
  by (induction n sts rule: must_writes.induct) auto

lemma run_step_wcount:
  "wcount (snd (run_step dev st w)) = wcount w + (case st of Pause ms \<Rightarrow> 0 | _ \<Rightarrow> 1)"
  by (cases st)
     (auto simp: run_step_def sleep_def print_def split: prod.splits bool.splits option.splits
       dest!: safe_serial_write_effect(2) safe_serial_read_effect(2))

lemma run_step_Must:
  "fst (run_step dev (Must c m) w) = (if on_write dev (wcount w) = WriteOk then None else Some m)"
  by (auto simp: run_step_def split: prod.splits bool.splits dest: safe_serial_write_effect(1))

lemma run_step_Query: "fst (run_step dev (Query c l) w) = None"
  by (auto simp: run_step_def split: prod.splits bool.splits)

lemma run_step_Pause: "fst (run_step dev (Pause ms) w) = None"
  by (simp add: run_step_def)

lemma run_steps_abort:
  "k \<in> set (must_writes (wcount w) sts) \<Longrightarrow> on_write dev k \<noteq> WriteOk \<Longrightarrow>
   \<exists>e. fst (run_steps dev sts w) = Some e \<and> wcount (snd (run_steps dev sts w)) \<le> k + 1"
proof (induction sts arbitrary: w)
  case Nil
  then show ?case by simp
next
  case (Cons st sts)
  obtain r w1 where st: "run_step dev st w = (r, w1)"
    by (cases "run_step dev st w")
  have wc: "wcount w1 = wcount w + (case st of Pause ms \<Rightarrow> 0 | _ \<Rightarrow> 1)"
    using run_step_wcount [of dev st w] st by simp
  show ?case
  proof (cases "\<exists>c m. st = Must c m \<and> k = wcount w")
    case True
    then obtain c m where "st = Must c m" "k = wcount w"
      by blast
    then have "r = Some m"
      using Cons.prems(2) run_step_Must [of dev c m w] st by simp
    then show ?thesis
      using st wc \<open>st = Must c m\<close> \<open>k = wcount w\<close> by simp
  next
    case False
    then have k: "k \<in> set (must_writes (wcount w1) sts)"
      using Cons.prems(1) wc by (cases st) auto
    show ?thesis
    proof (cases r)
      case None
      then show ?thesis
        using Cons.IH [OF k Cons.prems(2)] st by simp
    next
      case (Some e)
      then show ?thesis
        using must_writes_ge [OF k] st by simp
    qed
  qed
qed

lemma run_steps_pass:
  "Identify \<notin> set sts \<Longrightarrow> \<forall>k \<in> set (must_writes (wcount w) sts). on_write dev k = WriteOk \<Longrightarrow>
   fst (run_steps dev sts w) = None"
proof (induction sts arbitrary: w)
  case Nil
  then show ?case by simp
next
  case (Cons st sts)
  obtain r w1 where st: "run_step dev st w = (r, w1)"
    by (cases "run_step dev st w")
  have wc: "wcount w1 = wcount w + (case st of Pause ms \<Rightarrow> 0 | _ \<Rightarrow> 1)"
    using run_step_wcount [of dev st w] st by simp
  have "fst (run_step dev st w) = None"
    using Cons.prems run_step_Must [of dev _ _ w] run_step_Query [of dev _ _ w]
      run_step_Pause [of dev _ w]
    by (cases st) auto
  then have r: "r = None"
    using st by simp
  have "\<forall>k \<in> set (must_writes (wcount w1) sts). on_write dev k = WriteOk"
    using Cons.prems wc by (cases st) auto
  then show ?case
    using Cons.IH [of w1] Cons.prems(1) st r by simp
qed

lemma run_step_Identify:
  assumes "on_write dev (wcount w) = WriteOk" "on_read dev (rcount w) = Bytes bs" "strip bs \<noteq> []"
  shows "fst (run_step dev Identify w) = None"
  using assms
  by (auto simp: run_step_def safe_serial_write_def safe_serial_read_def Let_def sleep_def
      emit_def print_def strip_def)

lemma configure_pass:
  assumes "\<forall>k \<in> set (must_writes 0 (config_steps i)). on_write dev k = WriteOk"
    and "on_write dev 0 = WriteOk" and "on_read dev 0 = Bytes bs" and "strip bs \<noteq> []"
    and "wcount w = 0" and "rcount w = 0"
  shows "fst (configure dev i w) = None"
proof -
  define rest where "rest = drop 2 (config_steps i)"
  have cs: "config_steps i = Pause 500 # Identify # rest"
    by (simp add: rest_def config_steps_def)
  have ni: "Identify \<notin> set rest"
    by (simp add: rest_def config_steps_def)
  obtain r w1 where st: "run_step dev Identify (sleep 500 w) = (r, w1)"
    by (cases "run_step dev Identify (sleep 500 w)")
  have "r = None"
    using run_step_Identify [of dev "sleep 500 w" bs] assms(2-6) st by (simp add: sleep_def)
  moreover have "wcount w1 = 1"
    using run_step_wcount [of dev Identify "sleep 500 w"] st assms(5) by (simp add: sleep_def)
  moreover have "must_writes 0 (config_steps i) = must_writes 1 rest"
    by (simp add: cs)
  ultimately have "fst (run_steps dev rest w1) = None" "r = None"
    using run_steps_pass [OF ni, of w1 dev] assms(1) by simp_all
  then show ?thesis
    using st by (simp add: configure_def cs run_step_def)
qed

text \<open>
  C8. The set commands of the configuration are the \<^verbatim>\<open>write\<close> calls number 1, 2, 3
  (mode, function, timer) and 7 to 11 (the four items and their number); call 0 is the
  identification query and calls 4, 5, 6 and 12 are the verification queries.
  \<^item> If the write of a set command fails, the session ends with exit status 1 before
    any cycle begins: no cycle is counted, no \<^verbatim>\<open>write\<close> call follows the failed one, and
    the CSV file is untouched.
  \<^item> A verification query never raises, whether its write fails or its read-back is
    missing: when the identification succeeds and the writes of all set commands
    succeed, the configuration passes and the session ends with status 0, whatever
    the verification queries do.
\<close>

theorem configuration_fails_fast:
  "must_writes 0 (config_steps i) = [1, 2, 3, 7, 8, 9, 10, 11]
   \<and> (k \<in> set (must_writes 0 (config_steps i)) \<and> on_write dev k \<noteq> WriteOk \<longrightarrow>
        (\<exists>w. session dev i old_rows cycles = (1, 0, w) \<and> wcount w \<le> k + 1 \<and> csv w = old_rows))
   \<and> fst (run_step dev (Query command label) w) = None
   \<and> ((\<forall>k \<in> set (must_writes 0 (config_steps i)). on_write dev k = WriteOk)
        \<and> on_write dev 0 = WriteOk \<and> on_read dev 0 = Bytes bs \<and> strip bs \<noteq> [] \<longrightarrow>
        fst (session dev i old_rows cycles) = 0)"
proof -
  define w0 where "w0 = \<lparr>clock = 0, wcount = 0, rcount = 0, wire = [], console = [], csv = old_rows\<rparr>"
  have a: "\<exists>w. session dev i old_rows cycles = (1, 0, w) \<and> wcount w \<le> k + 1 \<and> csv w = old_rows"
    if k1: "k \<in> set (must_writes 0 (config_steps i))" and k2: "on_write dev k \<noteq> WriteOk"
  proof -
    have "k \<in> set (must_writes (wcount w0) (config_steps i))"
      using k1 by (simp add: w0_def)
    then obtain e where e: "fst (configure dev i w0) = Some e"
      and n: "wcount (snd (configure dev i w0)) \<le> k + 1"
      using run_steps_abort [of k w0 "config_steps i" dev] k2 by (auto simp: configure_def)
    have c: "csv (snd (configure dev i w0)) = old_rows"
      using csv_run_steps [of dev "config_steps i" w0] by (simp add: configure_def w0_def)
    have "session dev i old_rows cycles = (1, 0, print (FatalConfig e) (snd (configure dev i w0)))"
      using e by (cases "configure dev i w0") (simp add: session_def w0_def [symmetric])
    then show ?thesis
      using n c by (simp add: print_def)
  qed
  have b: "fst (session dev i old_rows cycles) = 0"
    if "\<forall>k \<in> set (must_writes 0 (config_steps i)). on_write dev k = WriteOk"
      and "on_write dev 0 = WriteOk" and "on_read dev 0 = Bytes bs" and "strip bs \<noteq> []"
  proof -
    have "fst (configure dev i w0) = None"
      using configure_pass [OF that, of w0] by (simp add: w0_def)
    then show ?thesis
      by (cases "configure dev i w0")
         (simp add: session_def w0_def [symmetric] Let_def split: prod.splits bool.splits)
  qed
  show ?thesis
  proof (intro conjI impI)
    show "must_writes 0 (config_steps i) = [1, 2, 3, 7, 8, 9, 10, 11]"
      by (rule must_writes_config)
    show "fst (run_step dev (Query command label) w) = None"
      by (rule run_step_Query)
  next
    assume "k \<in> set (must_writes 0 (config_steps i)) \<and> on_write dev k \<noteq> WriteOk"
    then show "\<exists>w. session dev i old_rows cycles = (1, 0, w) \<and> wcount w \<le> k + 1 \<and> csv w = old_rows"
      using a by blast
  next
    assume "(\<forall>k \<in> set (must_writes 0 (config_steps i)). on_write dev k = WriteOk)
        \<and> on_write dev 0 = WriteOk \<and> on_read dev 0 = Bytes bs \<and> strip bs \<noteq> []"
    then show "fst (session dev i old_rows cycles) = 0"
      using b by blast
  qed
qed

theorem configuration_fails_fast_witness:
  "on_write timer_fault_device 3 \<noteq> WriteOk
   \<and> fst (session timer_fault_device 10 [] 2) = 1
   \<and> fst (snd (session timer_fault_device 10 [] 2)) = 0
   \<and> on_write query_fault_device 4 \<noteq> WriteOk
   \<and> on_read query_fault_device 1 = Bytes []
   \<and> fst (session query_fault_device 10 [] 0) = 0"
proof -
  have p: "3 \<in> set (must_writes 0 (config_steps 10)) \<and> on_write timer_fault_device 3 \<noteq> WriteOk"
    by (simp add: config_steps_def timer_fault_device_def)
  have a: "\<exists>w. session timer_fault_device 10 [] 2 = (1, 0, w)"
    using configuration_fails_fast [of 10 3 timer_fault_device "[]" 2] p by blast
  have q: "(\<forall>k \<in> set (must_writes 0 (config_steps 10)). on_write query_fault_device k = WriteOk)
      \<and> on_write query_fault_device 0 = WriteOk
      \<and> on_read query_fault_device 0 = Bytes ''TELEDYNE,T3PM1006\<newline>''
      \<and> strip ''TELEDYNE,T3PM1006\<newline>'' \<noteq> []"
    by (simp add: config_steps_def query_fault_device_def text_defs)
  have b: "fst (session query_fault_device 10 [] 0) = 0"
    using configuration_fails_fast [of 10 0 query_fault_device "[]" 0] q by blast
  show ?thesis
    using a b by (auto simp: timer_fault_device_def query_fault_device_def)
qed

subsection \<open>Rounds of the polling loop on given answers\<close>

lemma write_ok:
  assumes "on_write dev (wcount w) = WriteOk"
  shows "\<exists>w'. safe_serial_write dev c w = (True, w') \<and> wcount w' = wcount w + 1
     \<and> rcount w' = rcount w \<and> clock w' = clock w + write_ms dev (wcount w) + 100
     \<and> wire w' = wire w @ [Sent c] \<and> console w' = console w \<and> csv w' = csv w"
  using assms by (simp add: safe_serial_write_def Let_def sleep_def emit_def)

lemma read_line:
  assumes "on_read dev (rcount w) = Bytes bs" and "bs \<noteq> []"
  shows "\<exists>w'. safe_serial_read dev w = (Some (strip bs), w') \<and> wcount w' = wcount w
     \<and> rcount w' = rcount w + 1 \<and> clock w' = clock w + read_ms dev (rcount w)
     \<and> wire w' = wire w @ [Received (Some (strip bs))] \<and> console w' = console w
     \<and> csv w' = csv w"
  using assms by (simp add: safe_serial_read_def Let_def emit_def)

lemma round_running:
  assumes "on_write dev (wcount w) = WriteOk"
    and "on_read dev (rcount w) = Bytes bs" and "bs \<noteq> []"
    and "\<not> str_in ''TIM'' (upper (strip bs))" and "\<not> str_in ''TIMEUP'' (upper (strip bs))"
    and "str_in ''RUN'' (upper (strip bs)) \<or> str_in ''RUNNING'' (upper (strip bs))"
    and "int (clock w) - int s \<le> t"
  shows "\<exists>w'. poll_state dev t s w = poll_state dev t s w' \<and> wcount w' = wcount w + 1
     \<and> rcount w' = rcount w + 1
     \<and> clock w' = clock w + write_ms dev (wcount w) + read_ms dev (rcount w) + 500
     \<and> wire w' = wire w @ [Sent '':INTEGRATE:STATE?\<newline>'', Received (Some (strip bs))]
     \<and> console w' = console w \<and> csv w' = csv w"
proof -
  obtain w1 where w1: "safe_serial_write dev '':INTEGRATE:STATE?\<newline>'' w = (True, w1)"
    "wcount w1 = wcount w + 1" "rcount w1 = rcount w"
    "clock w1 = clock w + write_ms dev (wcount w) + 100"
    "wire w1 = wire w @ [Sent '':INTEGRATE:STATE?\<newline>'']" "console w1 = console w"
    "csv w1 = csv w"
    using write_ok [OF assms(1)] by blast
  have "on_read dev (rcount w1) = Bytes bs"
    using assms(2) w1(3) by simp
  then obtain w2 where w2: "safe_serial_read dev w1 = (Some (strip bs), w2)"
    "wcount w2 = wcount w1" "rcount w2 = rcount w1 + 1"
    "clock w2 = clock w1 + read_ms dev (rcount w1)"
    "wire w2 = wire w1 @ [Received (Some (strip bs))]" "console w2 = console w1"
    "csv w2 = csv w1"
    using read_line [OF _ assms(3)] by blast
  have "poll_state dev t s w = poll_state dev t s (sleep 400 w2)"
    using assms(4-7) by (simp add: poll_state_round [OF w1(1) w2(1)])
  then show ?thesis
    using w1 w2 by (intro exI [of _ "sleep 400 w2"]) (simp add: sleep_def)
qed

lemma round_complete:
  assumes "on_write dev (wcount w) = WriteOk"
    and "on_read dev (rcount w) = Bytes bs" and "bs \<noteq> []"
    and "str_in ''TIM'' (upper (strip bs)) \<or> str_in ''TIMEUP'' (upper (strip bs))"
    and "int (clock w) - int s \<le> t"
  shows "\<exists>w'. poll_state dev t s w = (None, w') \<and> wcount w' = wcount w + 1
     \<and> rcount w' = rcount w + 1
     \<and> clock w' = clock w + write_ms dev (wcount w) + read_ms dev (rcount w) + 100
     \<and> wire w' = wire w @ [Sent '':INTEGRATE:STATE?\<newline>'', Received (Some (strip bs))]
     \<and> console w' = console w \<and> csv w' = csv w"
proof -
  obtain w1 where w1: "safe_serial_write dev '':INTEGRATE:STATE?\<newline>'' w = (True, w1)"
    "wcount w1 = wcount w + 1" "rcount w1 = rcount w"
    "clock w1 = clock w + write_ms dev (wcount w) + 100"
    "wire w1 = wire w @ [Sent '':INTEGRATE:STATE?\<newline>'']" "console w1 = console w"
    "csv w1 = csv w"
    using write_ok [OF assms(1)] by blast
  have "on_read dev (rcount w1) = Bytes bs"
    using assms(2) w1(3) by simp
  then obtain w2 where w2: "safe_serial_read dev w1 = (Some (strip bs), w2)"
    "wcount w2 = wcount w1" "rcount w2 = rcount w1 + 1"
    "clock w2 = clock w1 + read_ms dev (rcount w1)"
    "wire w2 = wire w1 @ [Received (Some (strip bs))]" "console w2 = console w1"
    "csv w2 = csv w1"
    using read_line [OF _ assms(3)] by blast
  have "poll_state dev t s w = (None, w2)"
    using assms(4-5) by (simp add: poll_state_round [OF w1(1) w2(1)])
  then show ?thesis
    using w1 w2 by (intro exI [of _ w2]) simp
qed

lemma round_stopped:
  assumes "on_write dev (wcount w) = WriteOk"
    and "on_read dev (rcount w) = Bytes bs" and "bs \<noteq> []"
    and "\<not> str_in ''TIM'' (upper (strip bs))" and "\<not> str_in ''TIMEUP'' (upper (strip bs))"
    and "\<not> str_in ''RUN'' (upper (strip bs))" and "\<not> str_in ''RUNNING'' (upper (strip bs))"
    and "str_in ''STOP'' (upper (strip bs)) \<or> str_in ''RESET'' (upper (strip bs))"
    and "int (clock w) - int s \<le> t"
  shows "\<exists>w'. poll_state dev t s w =
       (Some (Exception (''Integration stopped unexpectedly: '' @ upper (strip bs))), w')
     \<and> wcount w' = wcount w + 1 \<and> rcount w' = rcount w + 1
     \<and> wire w' = wire w @ [Sent '':INTEGRATE:STATE?\<newline>'', Received (Some (strip bs))]
     \<and> console w' = console w @ [ErrStopped (upper (strip bs))] \<and> csv w' = csv w"
proof -
  obtain w1 where w1: "safe_serial_write dev '':INTEGRATE:STATE?\<newline>'' w = (True, w1)"
    "wcount w1 = wcount w + 1" "rcount w1 = rcount w"
    "clock w1 = clock w + write_ms dev (wcount w) + 100"
    "wire w1 = wire w @ [Sent '':INTEGRATE:STATE?\<newline>'']" "console w1 = console w"
    "csv w1 = csv w"
    using write_ok [OF assms(1)] by blast
  have "on_read dev (rcount w1) = Bytes bs"
    using assms(2) w1(3) by simp
  then obtain w2 where w2: "safe_serial_read dev w1 = (Some (strip bs), w2)"
    "wcount w2 = wcount w1" "rcount w2 = rcount w1 + 1"
    "clock w2 = clock w1 + read_ms dev (rcount w1)"
    "wire w2 = wire w1 @ [Received (Some (strip bs))]" "console w2 = console w1"
    "csv w2 = csv w1"
    using read_line [OF _ assms(3)] by blast
  have "poll_state dev t s w =
      (Some (Exception (''Integration stopped unexpectedly: '' @ upper (strip bs))),
       print (ErrStopped (upper (strip bs))) w2)"
    using assms(4-9) by (simp add: poll_state_round [OF w1(1) w2(1)])
  then show ?thesis
    using w1 w2 by (intro exI [of _ "print (ErrStopped (upper (strip bs))) w2"]) (simp add: print_def)
qed

lemma state_texts:
  "strip ''RUNNING'' = ''RUNNING''" "upper ''RUNNING'' = ''RUNNING''"
  "strip ''TIMEUP'' = ''TIMEUP''" "upper ''TIMEUP'' = ''TIMEUP''"
  "strip ''STOP'' = ''STOP''" "upper ''STOP'' = ''STOP''"
  by (simp_all add: text_defs)

lemma record_measurement_frame:
  "wire (snd (record_measurement i resp w)) = wire w"
  "rcount (snd (record_measurement i resp w)) = rcount w"
  "wcount (snd (record_measurement i resp w)) = wcount w"
  by (auto simp: record_measurement_def Let_def print_def split: option.splits)

lemma cycle_running_running_timeup:
  assumes wr: "\<forall>j<6. on_write dev (wcount w + j) = WriteOk"
    and r0: "on_read dev (rcount w) = Bytes ''RUNNING''"
    and r1: "on_read dev (rcount w + 1) = Bytes ''RUNNING''"
    and r2: "on_read dev (rcount w + 2) = Bytes ''TIMEUP''"
    and tm: "int (write_ms dev (wcount w + 2) + read_ms dev (rcount w)
               + write_ms dev (wcount w + 3) + read_ms dev (rcount w + 1)) + 1000
             \<le> i * 1500 + 5000"
  shows "(\<exists>cycle_error. fst (cycle_body dev i w) = Inr cycle_error)
     \<and> rcount (snd (cycle_body dev i w)) = rcount w + 4
     \<and> (\<exists>response. wire (snd (cycle_body dev i w)) = wire w @
          [Sent '':INTegrate:RESet\<newline>'', Sent '':INTegrate:STARt\<newline>'',
           Sent '':INTEGRATE:STATE?\<newline>'', Received (Some ''RUNNING''),
           Sent '':INTEGRATE:STATE?\<newline>'', Received (Some ''RUNNING''),
           Sent '':INTEGRATE:STATE?\<newline>'', Received (Some ''TIMEUP''),
           Sent '':NUMERIC:NORMAL:VALUE?\<newline>'', Received response])"
proof -
  have ok: "on_write dev (wcount w) = WriteOk" "on_write dev (wcount w + 1) = WriteOk"
    "on_write dev (wcount w + 2) = WriteOk" "on_write dev (wcount w + 3) = WriteOk"
    "on_write dev (wcount w + 4) = WriteOk" "on_write dev (wcount w + 5) = WriteOk"
    using wr [rule_format, of 0] wr [rule_format, of 1] wr [rule_format, of 2]
      wr [rule_format, of 3] wr [rule_format, of 4] wr [rule_format, of 5]
    by simp_all
  define t where "t = i * 1500 + 5000"
  obtain w1 where w1: "safe_serial_write dev '':INTegrate:RESet\<newline>'' w = (True, w1)"
    "wcount w1 = wcount w + 1" "rcount w1 = rcount w"
    "wire w1 = wire w @ [Sent '':INTegrate:RESet\<newline>'']"
    using write_ok [OF ok(1)] by blast
  have "on_write dev (wcount (sleep 300 w1)) = WriteOk"
    using ok(2) w1(2) by (simp add: sleep_def)
  then obtain w2 where w2:
    "safe_serial_write dev '':INTegrate:STARt\<newline>'' (sleep 300 w1) = (True, w2)"
    "wcount w2 = wcount (sleep 300 w1) + 1" "rcount w2 = rcount (sleep 300 w1)"
    "wire w2 = wire (sleep 300 w1) @ [Sent '':INTegrate:STARt\<newline>'']"
    using write_ok [of dev "sleep 300 w1"] by blast
  define v0 where "v0 = sleep 100 w2"
  define s where "s = clock v0"
  have v0: "wcount v0 = wcount w + 2" "rcount v0 = rcount w"
    "wire v0 = wire w @ [Sent '':INTegrate:RESet\<newline>'', Sent '':INTegrate:STARt\<newline>'']"
    using w1 w2 by (simp_all add: v0_def sleep_def)
  have t0: "int (clock v0) - int s \<le> t"
    using tm by (simp add: s_def t_def)
  have run: "''RUNNING'' \<noteq> []" "\<not> str_in ''TIM'' (upper (strip ''RUNNING''))"
    "\<not> str_in ''TIMEUP'' (upper (strip ''RUNNING''))"
    "str_in ''RUN'' (upper (strip ''RUNNING'')) \<or> str_in ''RUNNING'' (upper (strip ''RUNNING''))"
    by (simp_all add: state_texts)
  have tup: "''TIMEUP'' \<noteq> []"
    "str_in ''TIM'' (upper (strip ''TIMEUP'')) \<or> str_in ''TIMEUP'' (upper (strip ''TIMEUP''))"
    by (simp_all add: state_texts)
  have a0: "on_write dev (wcount v0) = WriteOk" "on_read dev (rcount v0) = Bytes ''RUNNING''"
    using ok(3) r0 v0 by simp_all
  obtain v1 where v1: "poll_state dev t s v0 = poll_state dev t s v1"
    "wcount v1 = wcount v0 + 1" "rcount v1 = rcount v0 + 1"
    "clock v1 = clock v0 + write_ms dev (wcount v0) + read_ms dev (rcount v0) + 500"
    "wire v1 = wire v0 @ [Sent '':INTEGRATE:STATE?\<newline>'', Received (Some ''RUNNING'')]"
    using round_running [OF a0 run t0] unfolding state_texts by blast
  have t1: "int (clock v1) - int s \<le> t"
    using tm v1(4) v0 by (simp add: s_def t_def)
  have a1: "on_write dev (wcount v1) = WriteOk" "on_read dev (rcount v1) = Bytes ''RUNNING''"
    using ok(4) r1 v0 v1 by (simp_all add: numeral_eq_Suc)
  obtain v2 where v2: "poll_state dev t s v1 = poll_state dev t s v2"
    "wcount v2 = wcount v1 + 1" "rcount v2 = rcount v1 + 1"
    "clock v2 = clock v1 + write_ms dev (wcount v1) + read_ms dev (rcount v1) + 500"
    "wire v2 = wire v1 @ [Sent '':INTEGRATE:STATE?\<newline>'', Received (Some ''RUNNING'')]"
    using round_running [OF a1 run t1] unfolding state_texts by blast
  have "wcount v1 = wcount w + 3" "rcount v1 = rcount w + 1"
    using v0 v1 by simp_all
  then have t2: "int (clock v2) - int s \<le> t"
    using tm v2(4) v1(4) v0 by (simp add: s_def t_def)
  have a2: "on_write dev (wcount v2) = WriteOk" "on_read dev (rcount v2) = Bytes ''TIMEUP''"
    using ok(5) r2 v0 v1 v2 by (simp_all add: numeral_eq_Suc)
  obtain v3 where v3: "poll_state dev t s v2 = (None, v3)"
    "wcount v3 = wcount v2 + 1" "rcount v3 = rcount v2 + 1"
    "wire v3 = wire v2 @ [Sent '':INTEGRATE:STATE?\<newline>'', Received (Some ''TIMEUP'')]"
    using round_complete [OF a2 tup t2] unfolding state_texts by blast
  have p: "poll_state dev (i * 1500 + 5000) (clock (sleep 100 w2)) (sleep 100 w2) = (None, v3)"
    using v1(1) v2(1) v3(1) by (simp add: t_def s_def v0_def)
  have "on_write dev (wcount v3) = WriteOk"
    using ok(6) v0 v1 v2 v3 by (simp add: numeral_eq_Suc)
  then obtain w4 where w4: "safe_serial_write dev '':NUMERIC:NORMAL:VALUE?\<newline>'' v3 = (True, w4)"
    "wcount w4 = wcount v3 + 1" "rcount w4 = rcount v3"
    "wire w4 = wire v3 @ [Sent '':NUMERIC:NORMAL:VALUE?\<newline>'']"
    using write_ok [of dev v3] by blast
  obtain response w5 where w5: "safe_serial_read dev w4 = (response, w5)"
    by (cases "safe_serial_read dev w4")
  have w5': "rcount w5 = rcount w4 + 1" "wire w5 = wire w4 @ [Received response]"
    using w5 by (simp_all add: safe_serial_read_effect)
  have "cycle_body dev i w =
      (Inr (fst (record_measurement i response w5)), snd (record_measurement i response w5))"
    by (simp add: cycle_body_stages [OF w1(1) w2(1) p w4(1) w5])
  then show ?thesis
    using v0 v1 v2 v3 w4 w5' by (simp add: record_measurement_frame)
qed

lemma cycle_stop:
  assumes wr: "\<forall>j<3. on_write dev (wcount w + j) = WriteOk"
    and r0: "on_read dev (rcount w) = Bytes ''STOP''"
    and tm: "0 \<le> i * 1500 + 5000"
  shows "fst (cycle_body dev i w) = Inl (Exception ''Integration stopped unexpectedly: STOP'')
     \<and> rcount (snd (cycle_body dev i w)) = rcount w + 1
     \<and> wire (snd (cycle_body dev i w)) = wire w @
          [Sent '':INTegrate:RESet\<newline>'', Sent '':INTegrate:STARt\<newline>'',
           Sent '':INTEGRATE:STATE?\<newline>'', Received (Some ''STOP'')]"
proof -
  have ok: "on_write dev (wcount w) = WriteOk" "on_write dev (wcount w + 1) = WriteOk"
    "on_write dev (wcount w + 2) = WriteOk"
    using wr [rule_format, of 0] wr [rule_format, of 1] wr [rule_format, of 2]
    by simp_all
  define t where "t = i * 1500 + 5000"
  obtain w1 where w1: "safe_serial_write dev '':INTegrate:RESet\<newline>'' w = (True, w1)"
    "wcount w1 = wcount w + 1" "rcount w1 = rcount w"
    "wire w1 = wire w @ [Sent '':INTegrate:RESet\<newline>'']"
    using write_ok [OF ok(1)] by blast
  have "on_write dev (wcount (sleep 300 w1)) = WriteOk"
    using ok(2) w1(2) by (simp add: sleep_def)
  then obtain w2 where w2:
    "safe_serial_write dev '':INTegrate:STARt\<newline>'' (sleep 300 w1) = (True, w2)"
    "wcount w2 = wcount (sleep 300 w1) + 1" "rcount w2 = rcount (sleep 300 w1)"
    "wire w2 = wire (sleep 300 w1) @ [Sent '':INTegrate:STARt\<newline>'']"
    using write_ok [of dev "sleep 300 w1"] by blast
  define v0 where "v0 = sleep 100 w2"
  define s where "s = clock v0"
  have v0: "wcount v0 = wcount w + 2" "rcount v0 = rcount w"
    "wire v0 = wire w @ [Sent '':INTegrate:RESet\<newline>'', Sent '':INTegrate:STARt\<newline>'']"
    using w1 w2 by (simp_all add: v0_def sleep_def)
  have t0: "int (clock v0) - int s \<le> t"
    using tm by (simp add: s_def t_def)
  have stp: "''STOP'' \<noteq> []" "\<not> str_in ''TIM'' (upper (strip ''STOP''))"
    "\<not> str_in ''TIMEUP'' (upper (strip ''STOP''))"
    "\<not> str_in ''RUN'' (upper (strip ''STOP''))" "\<not> str_in ''RUNNING'' (upper (strip ''STOP''))"
    "str_in ''STOP'' (upper (strip ''STOP'')) \<or> str_in ''RESET'' (upper (strip ''STOP''))"
    by (simp_all add: state_texts)
  have a0: "on_write dev (wcount v0) = WriteOk" "on_read dev (rcount v0) = Bytes ''STOP''"
    using ok(3) r0 v0 by simp_all
  obtain v1 where v1:
    "poll_state dev t s v0 = (Some (Exception (''Integration stopped unexpectedly: '' @ ''STOP'')), v1)"
    "rcount v1 = rcount v0 + 1"
    "wire v1 = wire v0 @ [Sent '':INTEGRATE:STATE?\<newline>'', Received (Some ''STOP'')]"
    using round_stopped [OF a0 stp t0] unfolding state_texts by blast
  have p: "poll_state dev (i * 1500 + 5000) (clock (sleep 100 w2)) (sleep 100 w2) =
      (Some (Exception (''Integration stopped unexpectedly: '' @ ''STOP'')), v1)"
    using v1(1) by (simp add: t_def s_def v0_def)
  obtain ok4 w4 where w4: "safe_serial_write dev '':NUMERIC:NORMAL:VALUE?\<newline>'' v1 = (ok4, w4)"
    by (cases "safe_serial_write dev '':NUMERIC:NORMAL:VALUE?\<newline>'' v1")
  obtain response w5 where w5: "safe_serial_read dev w4 = (response, w5)"
    by (cases "safe_serial_read dev w4")
  have "cycle_body dev i w =
      (Inl (Exception (''Integration stopped unexpectedly: '' @ ''STOP'')), v1)"
    by (simp add: cycle_body_stages [OF w1(1) w2(1) p w4 w5])
  then show ?thesis
    using v0 v1 by simp
qed

text \<open>
  C3. Take a cycle in which the writes succeed. If the instrument answers the state
  queries with \<^verbatim>\<open>RUNNING\<close>, \<^verbatim>\<open>RUNNING\<close>, \<^verbatim>\<open>TIMEUP\<close>, and the watchdog has not expired
  before the third query (the two rounds take 0.5 s each plus the time the link takes),
  then the polling loop reads the state exactly three times and leaves by \<^verbatim>\<open>break\<close>:
  what follows on the link is the numeric query and its answer, the fourth and last
  read of the cycle, and the cycle ends without an exception. If the first answer is
  \<^verbatim>\<open>STOP\<close>, the cycle is left at once with the exception
  \<^verbatim>\<open>Integration stopped unexpectedly: STOP\<close>: one read, and nothing after it on the link.
\<close>

theorem polling_example_sequences:
  "((\<forall>j<6. on_write dev (wcount w + j) = WriteOk)
      \<and> on_read dev (rcount w) = Bytes ''RUNNING''
      \<and> on_read dev (rcount w + 1) = Bytes ''RUNNING''
      \<and> on_read dev (rcount w + 2) = Bytes ''TIMEUP''
      \<and> int (write_ms dev (wcount w + 2) + read_ms dev (rcount w)
               + write_ms dev (wcount w + 3) + read_ms dev (rcount w + 1)) + 1000
             \<le> i * 1500 + 5000
    \<longrightarrow> (\<exists>cycle_error. fst (cycle_body dev i w) = Inr cycle_error)
      \<and> rcount (snd (cycle_body dev i w)) = rcount w + 4
      \<and> (\<exists>response. wire (snd (cycle_body dev i w)) = wire w @
           [Sent '':INTegrate:RESet\<newline>'', Sent '':INTegrate:STARt\<newline>'',
            Sent '':INTEGRATE:STATE?\<newline>'', Received (Some ''RUNNING''),
            Sent '':INTEGRATE:STATE?\<newline>'', Received (Some ''RUNNING''),
            Sent '':INTEGRATE:STATE?\<newline>'', Received (Some ''TIMEUP''),
            Sent '':NUMERIC:NORMAL:VALUE?\<newline>'', Received response]))
   \<and> ((\<forall>j<3. on_write dev (wcount w + j) = WriteOk)
      \<and> on_read dev (rcount w) = Bytes ''STOP''
      \<and> 0 \<le> i * 1500 + 5000
    \<longrightarrow> fst (cycle_body dev i w) = Inl (Exception ''Integration stopped unexpectedly: STOP'')
      \<and> rcount (snd (cycle_body dev i w)) = rcount w + 1
      \<and> wire (snd (cycle_body dev i w)) = wire w @
           [Sent '':INTegrate:RESet\<newline>'', Sent '':INTegrate:STARt\<newline>'',
            Sent '':INTEGRATE:STATE?\<newline>'', Received (Some ''STOP'')])"
  using cycle_running_running_timeup [of dev w i] cycle_stop [of dev w i] by blast

theorem polling_example_sequences_witness:
  "(\<exists>cycle_error. fst (cycle_body timeup_device 10 fresh) = Inr cycle_error)
   \<and> rcount (snd (cycle_body timeup_device 10 fresh)) = 4
   \<and> fst (cycle_body stop_device 10 fresh) =
       Inl (Exception ''Integration stopped unexpectedly: STOP'')
   \<and> rcount (snd (cycle_body stop_device 10 fresh)) = 1"
proof -
  have a: "(\<forall>j<6. on_write timeup_device (wcount fresh + j) = WriteOk)
      \<and> on_read timeup_device (rcount fresh) = Bytes ''RUNNING''
      \<and> on_read timeup_device (rcount fresh + 1) = Bytes ''RUNNING''
      \<and> on_read timeup_device (rcount fresh + 2) = Bytes ''TIMEUP''
      \<and> int (write_ms timeup_device (wcount fresh + 2) + read_ms timeup_device (rcount fresh)
               + write_ms timeup_device (wcount fresh + 3)
               + read_ms timeup_device (rcount fresh + 1)) + 1000
             \<le> 10 * 1500 + 5000"
    by (simp add: timeup_device_def fresh_def)
  have b: "(\<forall>j<3. on_write stop_device (wcount fresh + j) = WriteOk)
      \<and> on_read stop_device (rcount fresh) = Bytes ''STOP''
      \<and> (0::int) \<le> 10 * 1500 + 5000"
    by (simp add: stop_device_def fresh_def)
  have "rcount fresh = 0"
    by (simp add: fresh_def)
  then show ?thesis
    using polling_example_sequences [of timeup_device fresh 10] a
      polling_example_sequences [of stop_device fresh 10] b
    by simp
qed

subsection \<open>The software time-out\<close>

lemma poll_state_waits:
  "\<forall>k \<ge> rcount w. waiting (on_read dev k) \<Longrightarrow>
   \<exists>m w'. poll_state dev t s w = (Some (TimeoutError m), w') \<and> t < int (clock w') - int s"
proof (induction dev t s w rule: poll_state.induct)
  case (1 dev t s w)
  obtain ok w1 where wr: "safe_serial_write dev '':INTEGRATE:STATE?\<newline>'' w = (ok, w1)"
    by (cases "safe_serial_write dev '':INTEGRATE:STATE?\<newline>'' w")
  obtain r w2 where rd: "safe_serial_read dev w1 = (r, w2)"
    by (cases "safe_serial_read dev w1")
  have rc1: "rcount w1 = rcount w"
    using wr by (simp add: safe_serial_write_effect)
  have rc2: "rcount w2 = rcount w + 1"
    using rd rc1 by (simp add: safe_serial_read_effect)
  have rr: "r = (case on_read dev (rcount w) of
                   Bytes bs \<Rightarrow> if bs \<noteq> [] then Some (strip bs) else None
                 | _ \<Rightarrow> None)"
    using safe_serial_read_effect(1) [OF rd] rc1 by simp
  have wt: "waiting (on_read dev (rcount w))"
    using "1.prems" by simp
  note round = poll_state_round [OF wr rd, of t s]
  show ?case
  proof (cases "t < int (clock w) - int s")
    case True
    then show ?thesis
      by (simp add: round)
  next
    case late: False
    show ?thesis
    proof (cases ok)
      case False
      define v where "v = sleep 1000 (print WarnStateSendFailed w1)"
      have "\<forall>k \<ge> rcount v. waiting (on_read dev k)"
        using "1.prems" rc1 by (simp add: v_def sleep_def print_def)
      then have "\<exists>m w'. poll_state dev t s v = (Some (TimeoutError m), w') \<and> t < int (clock w') - int s"
        if "\<not> t < int (clock v) - int s"
        using "1.IH"(4) [OF late wr [symmetric] _ v_def that] False by simp
      then show ?thesis
        using late False by (cases "t < int (clock v) - int s") (simp_all add: round v_def [symmetric])
    next
      case True
      then have okT: "ok = True"
        by simp
      show ?thesis
      proof (cases r)
        case None
        define v where "v = print WarnNoStateResponse w2"
        have "\<forall>k \<ge> rcount v. waiting (on_read dev k)"
          using "1.prems" rc2 by (simp add: v_def print_def)
        then have "\<exists>m w'. poll_state dev t s v = (Some (TimeoutError m), w') \<and> t < int (clock w') - int s"
          if "\<not> t < int (clock v) - int s"
          using "1.IH"(1) [OF late wr [symmetric] okT rd [symmetric] None v_def that] by simp
        then show ?thesis
          using late True None
          by (cases "t < int (clock v) - int s") (simp_all add: round v_def [symmetric])
      next
        case (Some x)
        then obtain bs where bs: "on_read dev (rcount w) = Bytes bs" "bs \<noteq> []" "x = strip bs"
          using rr by (auto split: readline_result.splits if_splits)
        have nt: "\<not> (str_in ''TIM'' (upper x) \<or> str_in ''TIMEUP'' (upper x))"
          using wt bs by (simp add: waiting_def Let_def)
        show ?thesis
        proof (cases "str_in ''RUN'' (upper x) \<or> str_in ''RUNNING'' (upper x)")
          case run: True
          have "\<forall>k \<ge> rcount (sleep 400 w2). waiting (on_read dev k)"
            using "1.prems" rc2 by (simp add: sleep_def)
          then have "\<exists>m w'. poll_state dev t s (sleep 400 w2) = (Some (TimeoutError m), w')
              \<and> t < int (clock w') - int s"
            using "1.IH"(2) [OF late wr [symmetric] okT rd [symmetric] Some refl nt run] by simp
          then show ?thesis
            using late True Some nt run by (simp add: round)
        next
          case norun: False
          have a: "\<not> (str_in ''STOP'' (upper x) \<or> str_in ''RESET'' (upper x))"
            and b: "\<not> str_in ''OVERFLOW'' (upper x)"
            using wt bs norun by (auto simp: waiting_def Let_def)
          define v where "v = sleep 500 (print (WarnUnexpectedState (upper x)) w2)"
          have "\<forall>k \<ge> rcount v. waiting (on_read dev k)"
            using "1.prems" rc2 by (simp add: v_def sleep_def print_def)
          then have "\<exists>m w'. poll_state dev t s v = (Some (TimeoutError m), w')
              \<and> t < int (clock w') - int s"
            using "1.IH"(3) [OF late wr [symmetric] okT rd [symmetric] Some refl nt norun a b]
            by (simp add: v_def)
          then show ?thesis
            using late True Some nt norun a b by (simp add: round v_def)
        qed
      qed
    qed
  qed
qed

lemma poll_state_timeout_late:
  "poll_state dev t s w = (Some (TimeoutError m), w') \<Longrightarrow> t < int (clock w') - int s"
proof (induction dev t s w rule: poll_state.induct)
  case (1 dev t s w)
  obtain ok w1 where wr: "safe_serial_write dev '':INTEGRATE:STATE?\<newline>'' w = (ok, w1)"
    by (cases "safe_serial_write dev '':INTEGRATE:STATE?\<newline>'' w")
  obtain r w2 where rd: "safe_serial_read dev w1 = (r, w2)"
    by (cases "safe_serial_read dev w1")
  show ?case
    using "1.IH"(1-3) [OF _ wr [symmetric] _ rd [symmetric]] "1.IH"(4) [OF _ wr [symmetric]]
      "1.prems"
    by (auto simp: poll_state_round [OF wr rd] split: option.splits if_splits)
qed

lemma cycle_waits:
  assumes "on_write dev (wcount w) = WriteOk" and "on_write dev (wcount w + 1) = WriteOk"
    and "\<forall>k \<ge> rcount w. waiting (on_read dev k)"
  shows "\<exists>m w'. cycle_body dev i w = (Inl (TimeoutError m), w')
     \<and> i * 1500 + 5000
         < int (clock w') - int (clock w + write_ms dev (wcount w) + write_ms dev (wcount w + 1) + 600)"
proof -
  obtain w1 where w1: "safe_serial_write dev '':INTegrate:RESet\<newline>'' w = (True, w1)"
    "wcount w1 = wcount w + 1" "rcount w1 = rcount w"
    "clock w1 = clock w + write_ms dev (wcount w) + 100"
    using write_ok [OF assms(1)] by blast
  have "on_write dev (wcount (sleep 300 w1)) = WriteOk"
    using assms(2) w1(2) by (simp add: sleep_def)
  then obtain w2 where w2:
    "safe_serial_write dev '':INTegrate:STARt\<newline>'' (sleep 300 w1) = (True, w2)"
    "rcount w2 = rcount (sleep 300 w1)"
    "clock w2 = clock (sleep 300 w1) + write_ms dev (wcount (sleep 300 w1)) + 100"
    using write_ok [of dev "sleep 300 w1"] by blast
  define v0 where "v0 = sleep 100 w2"
  have c0: "clock v0 = clock w + write_ms dev (wcount w) + write_ms dev (wcount w + 1) + 600"
    using w1 w2 by (simp add: v0_def sleep_def)
  have "\<forall>k \<ge> rcount v0. waiting (on_read dev k)"
    using assms(3) w1 w2 by (simp add: v0_def sleep_def)
  then obtain m w3 where p: "poll_state dev (i * 1500 + 5000) (clock v0) v0 = (Some (TimeoutError m), w3)"
    and late: "i * 1500 + 5000 < int (clock w3) - int (clock v0)"
    using poll_state_waits [of v0 dev "i * 1500 + 5000" "clock v0"] by blast
  obtain ok4 w4 where w4: "safe_serial_write dev '':NUMERIC:NORMAL:VALUE?\<newline>'' w3 = (ok4, w4)"
    by (cases "safe_serial_write dev '':NUMERIC:NORMAL:VALUE?\<newline>'' w3")
  obtain response w5 where w5: "safe_serial_read dev w4 = (response, w5)"
    by (cases "safe_serial_read dev w4")
  have "cycle_body dev i w = (Inl (TimeoutError m), w3)"
    by (simp add: cycle_body_stages [OF w1(1) w2(1) p [unfolded v0_def] w4 w5])
  then show ?thesis
    using late c0 by simp
qed

lemma loop_leaves_on_timeout:
  assumes "cycle_body dev i w = (Inl (TimeoutError m), w')"
  shows "integration_cycle dev i n w = (False, print (ErrFile m) w')"
    and "measurement_loop dev i (Suc cycles) loop_count w = (loop_count + 1, print (ErrFile m) w')"
  using assms by (simp_all add: integration_cycle_def Let_def)

lemma rcount_sleep [simp]: "rcount (sleep n w) = rcount w"
  by (simp add: sleep_def)

lemma rcount_print [simp]: "rcount (print m w) = rcount w"
  by (simp add: print_def)

lemma rcount_poll_state: "rcount w \<le> rcount (snd (poll_state dev t s w))"
proof (induction dev t s w rule: poll_state.induct)
  case (1 dev t s w)
  obtain ok w1 where wr: "safe_serial_write dev '':INTEGRATE:STATE?\<newline>'' w = (ok, w1)"
    by (cases "safe_serial_write dev '':INTEGRATE:STATE?\<newline>'' w")
  obtain r w2 where rd: "safe_serial_read dev w1 = (r, w2)"
    by (cases "safe_serial_read dev w1")
  have c1: "rcount w1 = rcount w"
    using wr by (simp add: safe_serial_write_effect)
  have c2: "rcount w2 = rcount w + 1"
    using rd c1 by (simp add: safe_serial_read_effect)
  note round = poll_state_round [OF wr rd, of t s]
  show ?case
  proof (cases "t < int (clock w) - int s")
    case True
    then show ?thesis
      by (auto simp: round)
  next
    case late: False
    show ?thesis
    proof (cases ok)
      case False
      then show ?thesis
        using "1.IH"(4) [OF late wr [symmetric] _ refl] late c1
        by (auto simp: round)
    next
      case True
      then have okT: "ok = True"
        by simp
      show ?thesis
      proof (cases r)
        case None
        then show ?thesis
          using "1.IH"(1) [OF late wr [symmetric] okT rd [symmetric] None refl] late okT c2
          by (auto simp: round)
      next
        case (Some x)
        show ?thesis
        proof (cases "str_in ''TIM'' (upper x) \<or> str_in ''TIMEUP'' (upper x)")
          case True
          then show ?thesis
            using late okT Some c2 by (auto simp: round)
        next
          case nt: False
          show ?thesis
          proof (cases "str_in ''RUN'' (upper x) \<or> str_in ''RUNNING'' (upper x)")
            case run: True
            then show ?thesis
              using "1.IH"(2) [OF late wr [symmetric] okT rd [symmetric] Some refl nt run]
                late okT Some nt c2
              by (auto simp: round)
          next
            case norun: False
            show ?thesis
            proof (cases "str_in ''STOP'' (upper x) \<or> str_in ''RESET'' (upper x)")
              case True
              then show ?thesis
                using late okT Some nt norun c2 by (auto simp: round)
            next
              case nostop: False
              show ?thesis
              proof (cases "str_in ''OVERFLOW'' (upper x)")
                case True
                then show ?thesis
                  using late okT Some nt norun nostop c2 by (auto simp: round)
              next
                case False
                then show ?thesis
                  using "1.IH"(3) [OF late wr [symmetric] okT rd [symmetric] Some refl nt norun
                      nostop False]
                    late okT Some nt norun nostop c2
                  by (auto simp: round)
              qed
            qed
          qed
        qed
      qed
    qed
  qed
qed

lemma poll_state_polled_waiting:
  "\<forall>k. rcount w \<le> k \<and> k < rcount (snd (poll_state dev t s w)) \<longrightarrow> waiting (on_read dev k) \<Longrightarrow>
   \<exists>m. fst (poll_state dev t s w) = Some (TimeoutError m)"
proof (induction dev t s w rule: poll_state.induct)
  case (1 dev t s w)
  obtain ok w1 where wr: "safe_serial_write dev '':INTEGRATE:STATE?\<newline>'' w = (ok, w1)"
    by (cases "safe_serial_write dev '':INTEGRATE:STATE?\<newline>'' w")
  obtain r w2 where rd: "safe_serial_read dev w1 = (r, w2)"
    by (cases "safe_serial_read dev w1")
  have rc1: "rcount w1 = rcount w"
    using wr by (simp add: safe_serial_write_effect)
  have rc2: "rcount w2 = rcount w + 1"
    using rd rc1 by (simp add: safe_serial_read_effect)
  have rr: "r = (case on_read dev (rcount w) of
                   Bytes bs \<Rightarrow> if bs \<noteq> [] then Some (strip bs) else None
                 | _ \<Rightarrow> None)"
    using safe_serial_read_effect(1) [OF rd] rc1 by simp
  note round = poll_state_round [OF wr rd, of t s]
  note polled = "1.prems"
  show ?case
  proof (cases "t < int (clock w) - int s")
    case True
    then show ?thesis
      by (simp add: round)
  next
    case late: False
    show ?thesis
    proof (cases ok)
      case False
      define v where "v = sleep 1000 (print WarnStateSendFailed w1)"
      have rv: "rcount v = rcount w"
        using rc1 by (simp add: v_def sleep_def print_def)
      show ?thesis
      proof (cases "t < int (clock v) - int s")
        case True
        then show ?thesis
          using late False by (simp add: round v_def [symmetric])
      next
        case nl: False
        have eq: "poll_state dev t s w = poll_state dev t s v"
          using late False nl by (simp add: round v_def [symmetric])
        have "\<forall>k. rcount v \<le> k \<and> k < rcount (snd (poll_state dev t s v)) \<longrightarrow> waiting (on_read dev k)"
          using polled rv eq by simp
        then show ?thesis
          using "1.IH"(4) [OF late wr [symmetric] _ v_def nl] False eq by simp
      qed
    next
      case True
      then have okT: "ok = True"
        by simp
      show ?thesis
      proof (cases r)
        case None
        define v where "v = print WarnNoStateResponse w2"
        have rv: "rcount v = rcount w + 1"
          using rc2 by (simp add: v_def print_def)
        show ?thesis
        proof (cases "t < int (clock v) - int s")
          case True
          then show ?thesis
            using late okT None by (simp add: round v_def [symmetric])
        next
          case nl: False
          have eq: "poll_state dev t s w = poll_state dev t s v"
            using late okT None nl by (simp add: round v_def [symmetric])
          have "\<forall>k. rcount v \<le> k \<and> k < rcount (snd (poll_state dev t s v)) \<longrightarrow> waiting (on_read dev k)"
            using polled rv eq by simp
          then show ?thesis
            using "1.IH"(1) [OF late wr [symmetric] okT rd [symmetric] None v_def nl] eq by simp
        qed
      next
        case (Some x)
        then obtain bs where bs: "on_read dev (rcount w) = Bytes bs" "bs \<noteq> []" "x = strip bs"
          using rr by (auto split: readline_result.splits if_splits)
        have "rcount w < rcount (snd (poll_state dev t s w))"
        proof -
          have "rcount w2 \<le> rcount (snd (poll_state dev t s w))"
            using late okT Some
              rcount_poll_state [of "sleep 400 w2" dev t s]
              rcount_poll_state [of "sleep 500 (print (WarnUnexpectedState (upper x)) w2)" dev t s]
            by (auto simp: round)
          then show ?thesis
            using rc2 by simp
        qed
        then have wt: "waiting (on_read dev (rcount w))"
          using polled by simp
        have nt: "\<not> (str_in ''TIM'' (upper x) \<or> str_in ''TIMEUP'' (upper x))"
          using wt bs by (simp add: waiting_def Let_def)
        show ?thesis
        proof (cases "str_in ''RUN'' (upper x) \<or> str_in ''RUNNING'' (upper x)")
          case run: True
          have eq: "poll_state dev t s w = poll_state dev t s (sleep 400 w2)"
            using late okT Some nt run by (simp add: round)
          have "\<forall>k. rcount (sleep 400 w2) \<le> k \<and> k < rcount (snd (poll_state dev t s (sleep 400 w2)))
              \<longrightarrow> waiting (on_read dev k)"
            using polled rc2 eq by (simp add: sleep_def)
          then show ?thesis
            using "1.IH"(2) [OF late wr [symmetric] okT rd [symmetric] Some refl nt run] eq by simp
        next
          case norun: False
          have a: "\<not> (str_in ''STOP'' (upper x) \<or> str_in ''RESET'' (upper x))"
            and b: "\<not> str_in ''OVERFLOW'' (upper x)"
            using wt bs norun by (auto simp: waiting_def Let_def)
          define v where "v = sleep 500 (print (WarnUnexpectedState (upper x)) w2)"
          have eq: "poll_state dev t s w = poll_state dev t s v"
            using late okT Some nt norun a b by (simp add: round v_def)
          have "\<forall>k. rcount v \<le> k \<and> k < rcount (snd (poll_state dev t s v)) \<longrightarrow> waiting (on_read dev k)"
            using polled rc2 eq by (simp add: v_def sleep_def print_def)
          then show ?thesis
            using "1.IH"(3) [OF late wr [symmetric] okT rd [symmetric] Some refl nt norun a b] eq
            by (simp add: v_def)
        qed
      qed
    qed
  qed
qed

lemma clock_sleep [simp]: "clock (sleep n w) = clock w + n"
  by (simp add: sleep_def)

lemma clock_print [simp]: "clock (print m w) = clock w"
  by (simp add: print_def)

lemma poll_state_elapsed_upper:
  assumes W: "\<forall>k. write_ms dev k \<le> W" and R: "\<forall>k. read_ms dev k \<le> R"
  shows "int (clock (snd (poll_state dev t s w))) - int s
     \<le> max (int (clock w) - int s) (t + int (W + R + 1000))"
  using assms
proof (induction dev t s w rule: poll_state.induct)
  case (1 dev t s w)
  obtain ok w1 where wr: "safe_serial_write dev '':INTEGRATE:STATE?\<newline>'' w = (ok, w1)"
    by (cases "safe_serial_write dev '':INTEGRATE:STATE?\<newline>'' w")
  obtain r w2 where rd: "safe_serial_read dev w1 = (r, w2)"
    by (cases "safe_serial_read dev w1")
  have "write_ms dev (wcount w) \<le> W" "read_ms dev (rcount w1) \<le> R"
    using "1.prems" by simp_all
  then have b1: "\<not> ok \<Longrightarrow> clock w1 \<le> clock w + W"
    and b2: "clock w2 \<le> clock w + W + R + 100"
    using safe_serial_write_effect(6) [OF wr] safe_serial_read_effect(6) [OF rd] by auto
  note round = poll_state_round [OF wr rd, of t s]
  note lat = "1.prems"
  show ?case
  proof (cases "t < int (clock w) - int s")
    case True
    then show ?thesis
      by (simp add: round)
  next
    case late: False
    show ?thesis
    proof (cases ok)
      case False
      then show ?thesis
        using "1.IH"(4) [OF late wr [symmetric] _ refl _ lat] late b1
        by (auto simp: round)
    next
      case True
      then have okT: "ok = True"
        by simp
      show ?thesis
      proof (cases r)
        case None
        then show ?thesis
          using "1.IH"(1) [OF late wr [symmetric] okT rd [symmetric] None refl _ lat] late okT b2
          by (auto simp: round)
      next
        case (Some x)
        show ?thesis
        proof (cases "str_in ''TIM'' (upper x) \<or> str_in ''TIMEUP'' (upper x)")
          case True
          then show ?thesis
            using late okT Some b2 by (auto simp: round)
        next
          case nt: False
          show ?thesis
          proof (cases "str_in ''RUN'' (upper x) \<or> str_in ''RUNNING'' (upper x)")
            case run: True
            then show ?thesis
              using "1.IH"(2) [OF late wr [symmetric] okT rd [symmetric] Some refl nt run lat]
                late okT Some nt b2
              by (auto simp: round)
          next
            case norun: False
            show ?thesis
            proof (cases "str_in ''STOP'' (upper x) \<or> str_in ''RESET'' (upper x)")
              case True
              then show ?thesis
                using late okT Some nt norun b2 by (auto simp: round)
            next
              case nostop: False
              show ?thesis
              proof (cases "str_in ''OVERFLOW'' (upper x)")
                case True
                then show ?thesis
                  using late okT Some nt norun nostop b2 by (auto simp: round)
              next
                case False
                then show ?thesis
                  using "1.IH"(3) [OF late wr [symmetric] okT rd [symmetric] Some refl nt norun
                      nostop False lat]
                    late okT Some nt norun nostop b2
                  by (auto simp: round)
              qed
            qed
          qed
        qed
      qed
    qed
  qed
qed

lemma cycle_polled_waiting:
  assumes ok1: "on_write dev (wcount w) = WriteOk" and ok2: "on_write dev (wcount w + 1) = WriteOk"
    and polled: "\<forall>k. rcount w \<le> k \<and> k < rcount (snd (cycle_body dev i w))
                   \<longrightarrow> waiting (on_read dev k)"
  shows "\<exists>m w'. cycle_body dev i w = (Inl (TimeoutError m), w')
     \<and> i * 1500 + 5000
         < int (clock w') - int (clock w + write_ms dev (wcount w) + write_ms dev (wcount w + 1) + 600)
     \<and> ((\<forall>k. write_ms dev k \<le> W) \<and> (\<forall>k. read_ms dev k \<le> R) \<longrightarrow>
         int (clock w') - int (clock w + write_ms dev (wcount w) + write_ms dev (wcount w + 1) + 600)
           \<le> max 0 (i * 1500 + 5000 + int (W + R + 1000)))"
proof -
  obtain w1 where w1: "safe_serial_write dev '':INTegrate:RESet\<newline>'' w = (True, w1)"
    "wcount w1 = wcount w + 1" "rcount w1 = rcount w"
    "clock w1 = clock w + write_ms dev (wcount w) + 100"
    using write_ok [OF ok1] by blast
  have "on_write dev (wcount (sleep 300 w1)) = WriteOk"
    using ok2 w1(2) by (simp add: sleep_def)
  then obtain w2 where w2:
    "safe_serial_write dev '':INTegrate:STARt\<newline>'' (sleep 300 w1) = (True, w2)"
    "rcount w2 = rcount (sleep 300 w1)"
    "clock w2 = clock (sleep 300 w1) + write_ms dev (wcount (sleep 300 w1)) + 100"
    using write_ok [of dev "sleep 300 w1"] by blast
  define v0 where "v0 = sleep 100 w2"
  define t where "t = i * 1500 + 5000"
  have c0: "clock v0 = clock w + write_ms dev (wcount w) + write_ms dev (wcount w + 1) + 600"
    using w1 w2 by (simp add: v0_def sleep_def)
  have r0: "rcount v0 = rcount w"
    using w1 w2 by (simp add: v0_def)
  obtain e w3 where p: "poll_state dev t (clock v0) v0 = (e, w3)"
    by (cases "poll_state dev t (clock v0) v0")
  obtain ok4 w4 where w4: "safe_serial_write dev '':NUMERIC:NORMAL:VALUE?\<newline>'' w3 = (ok4, w4)"
    by (cases "safe_serial_write dev '':NUMERIC:NORMAL:VALUE?\<newline>'' w3")
  obtain response w5 where w5: "safe_serial_read dev w4 = (response, w5)"
    by (cases "safe_serial_read dev w4")
  note stages = cycle_body_stages [OF w1(1) w2(1) p [unfolded v0_def t_def] w4 w5]
  have "rcount w4 = rcount w3" "rcount w5 = rcount w4 + 1"
    using w4 w5 by (simp_all add: safe_serial_write_effect safe_serial_read_effect)
  then have "rcount w3 \<le> rcount (snd (cycle_body dev i w))"
    by (simp add: stages record_measurement_frame split: option.splits)
  then have "\<forall>k. rcount v0 \<le> k \<and> k < rcount (snd (poll_state dev t (clock v0) v0))
      \<longrightarrow> waiting (on_read dev k)"
    using polled r0 p by simp
  then obtain m where e: "e = Some (TimeoutError m)"
    using poll_state_polled_waiting [of v0 dev t "clock v0"] p by auto
  have c: "cycle_body dev i w = (Inl (TimeoutError m), w3)"
    by (simp add: stages e)
  have late: "t < int (clock w3) - int (clock v0)"
    using poll_state_timeout_late [OF p [unfolded e]] .
  have upper: "int (clock w3) - int (clock v0) \<le> max 0 (t + int (W + R + 1000))"
    if "(\<forall>k. write_ms dev k \<le> W) \<and> (\<forall>k. read_ms dev k \<le> R)"
    using poll_state_elapsed_upper [of dev W R t "clock v0" v0] that p by simp
  show ?thesis
    using c late upper by (simp add: c0 t_def)
qed

lemma poll_state_reads:
  "100 * (int (rcount (snd (poll_state dev t s w))) - int (rcount w))
     \<le> max 0 (t - (int (clock w) - int s) + 100)"
proof (induction dev t s w rule: poll_state.induct)
  case (1 dev t s w)
  obtain ok w1 where wr: "safe_serial_write dev '':INTEGRATE:STATE?\<newline>'' w = (ok, w1)"
    by (cases "safe_serial_write dev '':INTEGRATE:STATE?\<newline>'' w")
  obtain r w2 where rd: "safe_serial_read dev w1 = (r, w2)"
    by (cases "safe_serial_read dev w1")
  have c1: "rcount w1 = rcount w" "clock w \<le> clock w1" "ok \<Longrightarrow> clock w + 100 \<le> clock w1"
    using safe_serial_write_effect [OF wr] by auto
  have c2: "rcount w2 = rcount w + 1" "clock w1 \<le> clock w2"
    using safe_serial_read_effect [OF rd] c1 by auto
  note round = poll_state_round [OF wr rd, of t s]
  show ?case
  proof (cases "t < int (clock w) - int s")
    case True
    then show ?thesis
      by (simp add: round)
  next
    case late: False
    show ?thesis
    proof (cases ok)
      case False
      then show ?thesis
        using "1.IH"(4) [OF late wr [symmetric] _ refl] late c1
        by (auto simp: round)
    next
      case True
      then have okT: "ok = True"
        by simp
      show ?thesis
      proof (cases r)
        case None
        then show ?thesis
          using "1.IH"(1) [OF late wr [symmetric] okT rd [symmetric] None refl] late okT c1 c2
          by (auto simp: round)
      next
        case (Some x)
        show ?thesis
        proof (cases "str_in ''TIM'' (upper x) \<or> str_in ''TIMEUP'' (upper x)")
          case True
          then show ?thesis
            using late okT Some c1 c2 by (auto simp: round)
        next
          case nt: False
          show ?thesis
          proof (cases "str_in ''RUN'' (upper x) \<or> str_in ''RUNNING'' (upper x)")
            case run: True
            then show ?thesis
              using "1.IH"(2) [OF late wr [symmetric] okT rd [symmetric] Some refl nt run]
                late okT Some nt c1 c2
              by (auto simp: round)
          next
            case norun: False
            show ?thesis
            proof (cases "str_in ''STOP'' (upper x) \<or> str_in ''RESET'' (upper x)")
              case True
              then show ?thesis
                using late okT Some nt norun c1 c2 by (auto simp: round)
            next
              case nostop: False
              show ?thesis
              proof (cases "str_in ''OVERFLOW'' (upper x)")
                case True
                then show ?thesis
                  using late okT Some nt norun nostop c1 c2 by (auto simp: round)
              next
                case False
                then show ?thesis
                  using "1.IH"(3) [OF late wr [symmetric] okT rd [symmetric] Some refl nt norun
                      nostop False]
                    late okT Some nt norun nostop c1 c2
                  by (auto simp: round)
              qed
            qed
          qed
        qed
      qed
    qed
  qed
qed

lemma cycle_body_reads:
  "100 * (int (rcount (snd (cycle_body dev i w))) - int (rcount w))
     \<le> max 0 (i * 1500 + 5000 + 100) + 100"
proof -
  obtain ok1 w1 where s1: "safe_serial_write dev '':INTegrate:RESet\<newline>'' w = (ok1, w1)"
    by (cases "safe_serial_write dev '':INTegrate:RESet\<newline>'' w")
  obtain ok2 w2 where s2: "safe_serial_write dev '':INTegrate:STARt\<newline>'' (sleep 300 w1) = (ok2, w2)"
    by (cases "safe_serial_write dev '':INTegrate:STARt\<newline>'' (sleep 300 w1)")
  obtain e w3 where s3:
    "poll_state dev (i * 1500 + 5000) (clock (sleep 100 w2)) (sleep 100 w2) = (e, w3)"
    by (cases "poll_state dev (i * 1500 + 5000) (clock (sleep 100 w2)) (sleep 100 w2)")
  obtain ok4 w4 where s4: "safe_serial_write dev '':NUMERIC:NORMAL:VALUE?\<newline>'' w3 = (ok4, w4)"
    by (cases "safe_serial_write dev '':NUMERIC:NORMAL:VALUE?\<newline>'' w3")
  obtain response w5 where s5: "safe_serial_read dev w4 = (response, w5)"
    by (cases "safe_serial_read dev w4")
  have r: "rcount w1 = rcount w" "rcount w2 = rcount w1" "rcount w4 = rcount w3"
    "rcount w5 = rcount w4 + 1"
    using s1 s2 s4 s5 by (simp_all add: safe_serial_write_effect safe_serial_read_effect)
  have "100 * (int (rcount w3) - int (rcount (sleep 100 w2))) \<le> max 0 (i * 1500 + 5000 + 100)"
    using poll_state_reads [of dev "i * 1500 + 5000" "clock (sleep 100 w2)" "sleep 100 w2"] s3
    by simp
  then have "100 * (int (rcount w3) - int (rcount w)) \<le> max 0 (i * 1500 + 5000 + 100)"
    using r by simp
  then show ?thesis
    using r
    by (auto simp: cycle_body_stages [OF s1 s2 s3 s4 s5] record_measurement_frame
        split: option.splits)
qed

lemma waiting_examples:
  "waiting (Bytes ''RUNNING'')" "waiting (Bytes [])"
  by (simp_all add: waiting_def text_defs)

text \<open>
  C1, as stated, fails in its last part: after the time-out the session does not go on
  to the next cycle. With an instrument that answers \<^verbatim>\<open>RUNNING\<close> for ever and an
  interval of 10 s, the round of the loop ends with \<^verbatim>\<open>break\<close>, and of five cycles the
  operator would allow only one is begun, in the loop and in the whole session.
\<close>

theorem timeout_ends_measurement_loop:
  "fst (integration_cycle stuck_device 10 1 fresh) = False
   \<and> fst (measurement_loop stuck_device 10 5 0 fresh) = 1
   \<and> fst (snd (session stuck_device 10 [] 5)) = 1"
proof -
  have ok: "on_write stuck_device k = WriteOk" for k
    by (simp add: stuck_device_def)
  have wt: "\<forall>k \<ge> rcount w. waiting (on_read stuck_device k)" for w
    by (simp add: stuck_device_def waiting_examples)
  obtain m w' where c: "cycle_body stuck_device 10 fresh = (Inl (TimeoutError m), w')"
    using cycle_waits [where dev = stuck_device and w = fresh and i = 10, OF ok ok wt] by blast
  have a: "fst (integration_cycle stuck_device 10 1 fresh) = False"
    using loop_leaves_on_timeout(1) [OF c] by simp
  have "measurement_loop stuck_device 10 (Suc 4) 0 fresh = (0 + 1, print (ErrFile m) w')"
    by (rule loop_leaves_on_timeout(2) [OF c])
  then have b: "fst (measurement_loop stuck_device 10 5 0 fresh) = 1"
    by (simp add: eval_nat_numeral)
  define w0 where "w0 = \<lparr>clock = 0, wcount = 0, rcount = 0, wire = [], console = [], csv = []\<rparr>"
  obtain r w1 where cf: "configure stuck_device 10 w0 = (r, w1)"
    by (cases "configure stuck_device 10 w0")
  have "strip ''RUNNING'' \<noteq> []"
    by (simp add: text_defs)
  then have "fst (configure stuck_device 10 w0) = None"
    using configure_pass [of 10 stuck_device "''RUNNING''" w0] ok
    by (simp add: stuck_device_def w0_def)
  then have r: "r = None"
    using cf by simp
  define w2 where "w2 = (if csv w1 = [] then w1\<lparr>csv := [csv_header]\<rparr> else w1)"
  obtain m2 w3 where c2: "cycle_body stuck_device 10 w2 = (Inl (TimeoutError m2), w3)"
    using cycle_waits [where dev = stuck_device and w = w2 and i = 10, OF ok ok wt] by blast
  have "measurement_loop stuck_device 10 (Suc 4) 0 w2 = (0 + 1, print (ErrFile m2) w3)"
    by (rule loop_leaves_on_timeout(2) [OF c2])
  then have ml: "measurement_loop stuck_device 10 5 0 w2 = (1, print (ErrFile m2) w3)"
    by (simp add: eval_nat_numeral)
  obtain ok5 w5 where st: "safe_serial_write stuck_device '':INTegrate:STOP\<newline>''
      (print (ErrFile m2) w3) = (ok5, w5)"
    by (cases "safe_serial_write stuck_device '':INTegrate:STOP\<newline>'' (print (ErrFile m2) w3)")
  have "fst (snd (session stuck_device 10 [] 5)) = 1"
    using session_stages [OF cf [unfolded w0_def] ml [unfolded w2_def] st] r by simp
  then show ?thesis
    using a b by simp
qed

text \<open>
  C1, amended. The polling phase of a cycle is bounded by a software watchdog of
  \<open>interval * 1.5 + 5\<close> seconds measured from the entry into polling. The time-out is
  raised only when more than that has passed, and a round of polling is begun only
  while no more than that has passed: when every write takes at most \<open>W\<close> and every
  read at most \<open>R\<close> milliseconds, polling ends, however it ends, at most
  \<open>W + R + 1000\<close> ms (one round) after the bound. If the reset and the start are sent
  and none of the answers read in the cycle reports \<^verbatim>\<open>TIM\<close> or \<^verbatim>\<open>TIMEUP\<close> (nor
  \<^verbatim>\<open>STOP\<close>, \<^verbatim>\<open>RESET\<close> or \<^verbatim>\<open>OVERFLOW\<close>), the cycle fails with \<^verbatim>\<open>TimeoutError\<close>, more
  than the bound and at most one round beyond it after the entry into polling, and
  the measurement loop is then left: no further cycle is begun, however many the
  operator would allow. What the instrument would answer later does not matter.
\<close>

theorem watchdog_ends_measurement_loop:
  "(poll_state dev t s w = (Some (TimeoutError m'), v) \<longrightarrow> t < int (clock v) - int s)
   \<and> ((\<forall>k. write_ms dev k \<le> W) \<and> (\<forall>k. read_ms dev k \<le> R) \<longrightarrow>
        int (clock (snd (poll_state dev t s w))) - int s
          \<le> max (int (clock w) - int s) (t + int (W + R + 1000)))
   \<and> (on_write dev (wcount w) = WriteOk \<and> on_write dev (wcount w + 1) = WriteOk
      \<and> (\<forall>k. rcount w \<le> k \<and> k < rcount (snd (cycle_body dev i w)) \<longrightarrow> waiting (on_read dev k))
    \<longrightarrow> (\<exists>m w'. cycle_body dev i w = (Inl (TimeoutError m), w')
          \<and> i * 1500 + 5000
              < int (clock w')
                - int (clock w + write_ms dev (wcount w) + write_ms dev (wcount w + 1) + 600)
          \<and> ((\<forall>k. write_ms dev k \<le> W) \<and> (\<forall>k. read_ms dev k \<le> R) \<longrightarrow>
                int (clock w')
                  - int (clock w + write_ms dev (wcount w) + write_ms dev (wcount w + 1) + 600)
                \<le> max 0 (i * 1500 + 5000 + int (W + R + 1000)))
          \<and> integration_cycle dev i n w = (False, print (ErrFile m) w')
          \<and> measurement_loop dev i (Suc cycles) loop_count w
              = (loop_count + 1, print (ErrFile m) w')))"
proof (intro conjI impI)
  assume "poll_state dev t s w = (Some (TimeoutError m'), v)"
  then show "t < int (clock v) - int s"
    by (rule poll_state_timeout_late)
next
  assume "(\<forall>k. write_ms dev k \<le> W) \<and> (\<forall>k. read_ms dev k \<le> R)"
  then show "int (clock (snd (poll_state dev t s w))) - int s
      \<le> max (int (clock w) - int s) (t + int (W + R + 1000))"
    using poll_state_elapsed_upper [of dev W R t s w] by blast
next
  assume a: "on_write dev (wcount w) = WriteOk \<and> on_write dev (wcount w + 1) = WriteOk
      \<and> (\<forall>k. rcount w \<le> k \<and> k < rcount (snd (cycle_body dev i w)) \<longrightarrow> waiting (on_read dev k))"
  then obtain m w' where c: "cycle_body dev i w = (Inl (TimeoutError m), w')"
    and l: "i * 1500 + 5000
      < int (clock w') - int (clock w + write_ms dev (wcount w) + write_ms dev (wcount w + 1) + 600)"
    and u: "(\<forall>k. write_ms dev k \<le> W) \<and> (\<forall>k. read_ms dev k \<le> R) \<longrightarrow>
         int (clock w') - int (clock w + write_ms dev (wcount w) + write_ms dev (wcount w + 1) + 600)
           \<le> max 0 (i * 1500 + 5000 + int (W + R + 1000))"
    using cycle_polled_waiting [of dev w i W R] by blast
  show "\<exists>m w'. cycle_body dev i w = (Inl (TimeoutError m), w')
          \<and> i * 1500 + 5000
              < int (clock w')
                - int (clock w + write_ms dev (wcount w) + write_ms dev (wcount w + 1) + 600)
          \<and> ((\<forall>k. write_ms dev k \<le> W) \<and> (\<forall>k. read_ms dev k \<le> R) \<longrightarrow>
                int (clock w')
                  - int (clock w + write_ms dev (wcount w) + write_ms dev (wcount w + 1) + 600)
                \<le> max 0 (i * 1500 + 5000 + int (W + R + 1000)))
          \<and> integration_cycle dev i n w = (False, print (ErrFile m) w')
          \<and> measurement_loop dev i (Suc cycles) loop_count w
              = (loop_count + 1, print (ErrFile m) w')"
    using c l u loop_leaves_on_timeout [OF c] by blast
qed

theorem watchdog_ends_measurement_loop_witness:
  "on_write silent_device (wcount fresh) = WriteOk
   \<and> waiting (on_read silent_device 7)
   \<and> fst (integration_cycle silent_device 10 1 fresh) = False
   \<and> fst (measurement_loop silent_device 10 (Suc 2) 0 fresh) = 1
   \<and> (\<exists>w'. snd (cycle_body silent_device 10 fresh) = w'
         \<and> 20000 < int (clock w') - 600 \<and> int (clock w') - 600 \<le> 23000)
   \<and> \<not> waiting (on_read late_device 1000)
   \<and> fst (integration_cycle late_device 10 1 fresh) = False
   \<and> fst (measurement_loop late_device 10 (Suc 2) 0 fresh) = 1"
proof -
  have h: "on_write silent_device (wcount fresh) = WriteOk
      \<and> on_write silent_device (wcount fresh + 1) = WriteOk
      \<and> (\<forall>k. rcount fresh \<le> k \<and> k < rcount (snd (cycle_body silent_device 10 fresh))
            \<longrightarrow> waiting (on_read silent_device k))"
    by (simp add: silent_device_def waiting_examples)
  have lat: "(\<forall>k. write_ms silent_device k \<le> 0) \<and> (\<forall>k. read_ms silent_device k \<le> 2000)"
    by (simp add: silent_device_def)
  obtain m w' where c: "cycle_body silent_device 10 fresh = (Inl (TimeoutError m), w')"
    and l: "10 * 1500 + 5000
      < int (clock w') - int (clock fresh + write_ms silent_device (wcount fresh)
          + write_ms silent_device (wcount fresh + 1) + 600)"
    and u: "int (clock w') - int (clock fresh + write_ms silent_device (wcount fresh)
          + write_ms silent_device (wcount fresh + 1) + 600)
        \<le> max 0 (10 * 1500 + 5000 + int (0 + 2000 + 1000))"
    and g: "integration_cycle silent_device 10 1 fresh = (False, print (ErrFile m) w')"
      "measurement_loop silent_device 10 (Suc 2) 0 fresh = (0 + 1, print (ErrFile m) w')"
    using watchdog_ends_measurement_loop [of silent_device _ _ fresh _ _ 0 2000 10 1 2 0] h lat
    by blast
  have b: "20000 < int (clock w') - 600 \<and> int (clock w') - 600 \<le> 23000"
    using l u by (simp add: silent_device_def fresh_def)
  have "100 * (int (rcount (snd (cycle_body late_device 10 fresh))) - int (rcount fresh))
      \<le> max 0 (10 * 1500 + 5000 + 100) + 100"
    by (rule cycle_body_reads)
  then have "rcount (snd (cycle_body late_device 10 fresh)) < 1000"
    by (simp add: fresh_def)
  then have h2: "on_write late_device (wcount fresh) = WriteOk
      \<and> on_write late_device (wcount fresh + 1) = WriteOk
      \<and> (\<forall>k. rcount fresh \<le> k \<and> k < rcount (snd (cycle_body late_device 10 fresh))
            \<longrightarrow> waiting (on_read late_device k))"
    by (simp add: late_device_def waiting_examples)
  obtain m2 w2 where g2: "integration_cycle late_device 10 1 fresh = (False, print (ErrFile m2) w2)"
      "measurement_loop late_device 10 (Suc 2) 0 fresh = (0 + 1, print (ErrFile m2) w2)"
    using watchdog_ends_measurement_loop [of late_device _ _ fresh _ _ 0 0 10 1 2 0] h2
    by blast
  have nw: "\<not> waiting (on_read late_device 1000)"
    by (simp add: late_device_def waiting_def text_defs)
  show ?thesis
    using c g b g2 nw by (simp add: silent_device_def waiting_examples)
qed

subsection \<open>Order of the commands of a cycle\<close>

lemma monitor_snoc:
  "monitor p (es @ [e]) = (case monitor p es of None \<Rightarrow> None | Some q \<Rightarrow> phase_step q e)"
  by (induction es arbitrary: p) (auto split: option.splits)

lemma phase_of_sleep [simp]: "phase_of (sleep n w) = phase_of w"
  by (simp add: phase_of_def sleep_def)

lemma phase_of_print [simp]: "phase_of (print m w) = phase_of w"
  by (simp add: phase_of_def print_def)

lemma phase_of_csv [simp]: "phase_of (w\<lparr>csv := c\<rparr>) = phase_of w"
  by (simp add: phase_of_def)

lemma phase_write:
  assumes "safe_serial_write dev c w = (ok, w')" and "phase_of w = Some p"
  shows "phase_of w' = phase_step p (if ok then Sent c else SendFailed c)"
  using assms safe_serial_write_effect(5) [OF assms(1)]
  by (simp add: phase_of_def monitor_snoc)

lemma phase_read:
  assumes "safe_serial_read dev w = (r, w')" and "phase_of w = Some p"
  shows "phase_of w' = phase_step p (Received r)"
  using assms safe_serial_read_effect(5) [OF assms(1)]
  by (simp add: phase_of_def monitor_snoc)

lemma phase_record_measurement [simp]:
  "phase_of (snd (record_measurement i resp w)) = phase_of w"
  by (simp add: phase_of_def record_measurement_frame)

text \<open>Polling: an integration in flight stays so until an answer ends the polling.\<close>

lemma phase_poll_state:
  "phase_of w = Some InFlight \<Longrightarrow>
   phase_of (snd (poll_state dev t s w)) =
     (case fst (poll_state dev t s w) of
        Some (TimeoutError m) \<Rightarrow> Some InFlight
      | _ \<Rightarrow> Some Idle)"
proof (induction dev t s w rule: poll_state.induct)
  case (1 dev t s w)
  obtain ok w1 where wr: "safe_serial_write dev '':INTEGRATE:STATE?\<newline>'' w = (ok, w1)"
    by (cases "safe_serial_write dev '':INTEGRATE:STATE?\<newline>'' w")
  obtain r w2 where rd: "safe_serial_read dev w1 = (r, w2)"
    by (cases "safe_serial_read dev w1")
  have p1: "phase_of w1 = Some InFlight"
    using phase_write [OF wr "1.prems"] by (simp add: phase_step_def)
  have p2: "phase_of w2 = phase_step InFlight (Received r)"
    using phase_read [OF rd p1] .
  note round = poll_state_round [OF wr rd, of t s]
  show ?case
  proof (cases "t < int (clock w) - int s")
    case True
    then show ?thesis
      using "1.prems" by (simp add: round)
  next
    case late: False
    show ?thesis
    proof (cases ok)
      case False
      define v where "v = sleep 1000 (print WarnStateSendFailed w1)"
      have pv: "phase_of v = Some InFlight"
        using p1 by (simp add: v_def)
      show ?thesis
      proof (cases "t < int (clock v) - int s")
        case True
        then show ?thesis
          using late False pv by (simp add: round v_def [symmetric])
      next
        case nl: False
        show ?thesis
          using "1.IH"(4) [OF late wr [symmetric] _ v_def nl pv] late False nl
          by (simp add: round v_def [symmetric])
      qed
    next
      case True
      then have okT: "ok = True"
        by simp
      show ?thesis
      proof (cases r)
        case None
        define v where "v = print WarnNoStateResponse w2"
        have pv: "phase_of v = Some InFlight"
          using p2 None by (simp add: v_def phase_step_def)
        show ?thesis
        proof (cases "t < int (clock v) - int s")
          case True
          then show ?thesis
            using late okT None pv by (simp add: round v_def [symmetric])
        next
          case nl: False
          show ?thesis
            using "1.IH"(1) [OF late wr [symmetric] okT rd [symmetric] None v_def nl pv]
              late okT None nl
            by (simp add: round v_def [symmetric])
        qed
      next
        case (Some x)
        show ?thesis
        proof (cases "str_in ''TIM'' (upper x) \<or> str_in ''TIMEUP'' (upper x)")
          case tim: True
          then have "terminal x"
            by (auto simp: terminal_def Let_def)
          then show ?thesis
            using late okT Some tim p2 by (simp add: round phase_step_def)
        next
          case nt: False
          show ?thesis
          proof (cases "str_in ''RUN'' (upper x) \<or> str_in ''RUNNING'' (upper x)")
            case run: True
            then have "\<not> terminal x"
              using nt by (auto simp: terminal_def Let_def)
            then have pv: "phase_of (sleep 400 w2) = Some InFlight"
              using p2 Some by (simp add: phase_step_def)
            show ?thesis
              using "1.IH"(2) [OF late wr [symmetric] okT rd [symmetric] Some refl nt run pv]
                late okT Some nt run
              by (simp add: round)
          next
            case norun: False
            show ?thesis
            proof (cases "str_in ''STOP'' (upper x) \<or> str_in ''RESET'' (upper x)
                \<or> str_in ''OVERFLOW'' (upper x)")
              case True
              then have "terminal x"
                using norun by (auto simp: terminal_def Let_def)
              then show ?thesis
                using late okT Some nt norun True p2 by (auto simp: round phase_step_def)
            next
              case other: False
              then have a: "\<not> (str_in ''STOP'' (upper x) \<or> str_in ''RESET'' (upper x))"
                and b: "\<not> str_in ''OVERFLOW'' (upper x)"
                by auto
              define v where "v = sleep 500 (print (WarnUnexpectedState (upper x)) w2)"
              have "\<not> terminal x"
                using nt other by (auto simp: terminal_def Let_def)
              then have pv: "phase_of v = Some InFlight"
                using p2 Some by (simp add: phase_step_def v_def)
              show ?thesis
                using "1.IH"(3) [OF late wr [symmetric] okT rd [symmetric] Some refl nt norun a b
                    pv [unfolded v_def]]
                  late okT Some nt norun a b
                by (simp add: round)
            qed
          qed
        qed
      qed
    qed
  qed
qed

lemma phase_cycle_body:
  assumes "phase_of w = Some Idle"
  shows "phase_of (snd (cycle_body dev i w)) =
     (case fst (cycle_body dev i w) of
        Inl (TimeoutError m) \<Rightarrow> Some InFlight
      | _ \<Rightarrow> Some Idle)"
proof -
  obtain ok1 w1 where s1: "safe_serial_write dev '':INTegrate:RESet\<newline>'' w = (ok1, w1)"
    by (cases "safe_serial_write dev '':INTegrate:RESet\<newline>'' w")
  obtain ok2 w2 where s2: "safe_serial_write dev '':INTegrate:STARt\<newline>'' (sleep 300 w1) = (ok2, w2)"
    by (cases "safe_serial_write dev '':INTegrate:STARt\<newline>'' (sleep 300 w1)")
  obtain e w3 where s3:
    "poll_state dev (i * 1500 + 5000) (clock (sleep 100 w2)) (sleep 100 w2) = (e, w3)"
    by (cases "poll_state dev (i * 1500 + 5000) (clock (sleep 100 w2)) (sleep 100 w2)")
  obtain ok4 w4 where s4: "safe_serial_write dev '':NUMERIC:NORMAL:VALUE?\<newline>'' w3 = (ok4, w4)"
    by (cases "safe_serial_write dev '':NUMERIC:NORMAL:VALUE?\<newline>'' w3")
  obtain response w5 where s5: "safe_serial_read dev w4 = (response, w5)"
    by (cases "safe_serial_read dev w4")
  note stages = cycle_body_stages [OF s1 s2 s3 s4 s5]
  have p1: "phase_of w1 = Some (if ok1 then Armed else Idle)"
    using phase_write [OF s1 assms] by (simp add: phase_step_def)
  show ?thesis
  proof (cases ok1)
    case False
    then show ?thesis
      using p1 by (simp add: stages)
  next
    case ok1: True
    then have "phase_of (sleep 300 w1) = Some Armed"
      using p1 by simp
    then have p2: "phase_of w2 = Some (if ok2 then InFlight else Idle)"
      using phase_write [OF s2] by (simp add: phase_step_def)
    show ?thesis
    proof (cases ok2)
      case False
      then show ?thesis
        using ok1 p2 by (simp add: stages)
    next
      case ok2: True
      then have "phase_of (sleep 100 w2) = Some InFlight"
        using p2 by simp
      then have p3: "phase_of w3 =
          (case e of Some (TimeoutError m) \<Rightarrow> Some InFlight | _ \<Rightarrow> Some Idle)"
        using phase_poll_state [of "sleep 100 w2" dev "i * 1500 + 5000" "clock (sleep 100 w2)"] s3
        by simp
      show ?thesis
      proof (cases e)
        case (Some x)
        then show ?thesis
          using ok1 ok2 p3 by (cases x) (simp_all add: stages)
      next
        case None
        then have "phase_of w3 = Some Idle"
          using p3 by simp
        then have p4: "phase_of w4 = Some Idle"
          using phase_write [OF s4] by (simp add: phase_step_def)
        then have "phase_of w5 = Some Idle"
          using phase_read [OF s5] by (simp add: phase_step_def split: option.splits)
        then show ?thesis
          using ok1 ok2 None p4 by (simp add: stages)
      qed
    qed
  qed
qed

lemma phase_integration_cycle:
  assumes "phase_of w = Some Idle"
  shows "phase_of (snd (integration_cycle dev i n w)) =
     Some (if fst (integration_cycle dev i n w) then Idle else InFlight)"
proof -
  obtain r w1 where c: "cycle_body dev i w = (r, w1)"
    by (cases "cycle_body dev i w")
  have "phase_of w1 = (case r of Inl (TimeoutError m) \<Rightarrow> Some InFlight | _ \<Rightarrow> Some Idle)"
    using phase_cycle_body [OF assms, of dev i] c by simp
  then show ?thesis
    by (simp add: integration_cycle_def c split: sum.splits exc.splits)
qed

lemma phase_measurement_loop:
  "phase_of w = Some Idle \<Longrightarrow>
   phase_of (snd (measurement_loop dev i cycles n w)) = Some Idle
   \<or> phase_of (snd (measurement_loop dev i cycles n w)) = Some InFlight"
proof (induction cycles arbitrary: n w)
  case 0
  then show ?case by simp
next
  case (Suc cycles)
  obtain go w1 where c: "integration_cycle dev i (n + 1) w = (go, w1)"
    by (cases "integration_cycle dev i (n + 1) w")
  have p: "phase_of w1 = Some (if go then Idle else InFlight)"
    using phase_integration_cycle [OF Suc.prems, of dev i "n + 1"] c by simp
  show ?case
  proof (cases go)
    case True
    then show ?thesis
      using Suc.IH [of w1 "n + 1"] p c by (simp add: Let_def)
  next
    case False
    then show ?thesis
      using p c by (simp add: Let_def)
  qed
qed

lemma phase_run_step:
  assumes "phase_of w = Some Idle"
    and "command_of st \<noteq> Some '':INTegrate:RESet\<newline>''"
    and "command_of st \<noteq> Some '':INTegrate:STARt\<newline>''"
  shows "phase_of (snd (run_step dev st w)) = Some Idle"
proof (cases st)
  case Identify
  obtain ok w1 where a: "safe_serial_write dev ''*IDN?\<newline>'' w = (ok, w1)"
    by (cases "safe_serial_write dev ''*IDN?\<newline>'' w")
  obtain r w2 where b: "safe_serial_read dev w1 = (r, w2)"
    by (cases "safe_serial_read dev w1")
  have p1: "phase_of w1 = Some Idle"
    using phase_write [OF a assms(1)] by (simp add: phase_step_def)
  then have "phase_of w2 = Some Idle"
    using phase_read [OF b] by (simp add: phase_step_def split: option.splits)
  then show ?thesis
    using Identify a b p1 by (simp add: run_step_def split: bool.splits option.splits)
next
  case (Must c m)
  obtain ok w1 where a: "safe_serial_write dev c w = (ok, w1)"
    by (cases "safe_serial_write dev c w")
  have "phase_of w1 = Some Idle"
    using phase_write [OF a assms(1)] assms(2,3) Must
    by (simp add: phase_step_def command_of_def)
  then show ?thesis
    using Must a by (simp add: run_step_def split: bool.splits)
next
  case (Query c l)
  obtain ok w1 where a: "safe_serial_write dev c w = (ok, w1)"
    by (cases "safe_serial_write dev c w")
  obtain r w2 where b: "safe_serial_read dev w1 = (r, w2)"
    by (cases "safe_serial_read dev w1")
  have p1: "phase_of w1 = Some Idle"
    using phase_write [OF a assms(1)] assms(2,3) Query
    by (simp add: phase_step_def command_of_def)
  then have "phase_of w2 = Some Idle"
    using phase_read [OF b] by (simp add: phase_step_def split: option.splits)
  then show ?thesis
    using Query a b p1 by (simp add: run_step_def split: bool.splits)
next
  case (Pause ms)
  then show ?thesis
    using assms(1) by (simp add: run_step_def)
qed

lemma phase_run_steps:
  "phase_of w = Some Idle \<Longrightarrow>
   \<forall>st \<in> set sts. command_of st \<noteq> Some '':INTegrate:RESet\<newline>''
      \<and> command_of st \<noteq> Some '':INTegrate:STARt\<newline>'' \<Longrightarrow>
   phase_of (snd (run_steps dev sts w)) = Some Idle"
proof (induction sts arbitrary: w)
  case Nil
  then show ?case by simp
next
  case (Cons st sts)
  obtain r w1 where st: "run_step dev st w = (r, w1)"
    by (cases "run_step dev st w")
  have "phase_of w1 = Some Idle"
    using phase_run_step [OF Cons.prems(1), of st dev] Cons.prems(2) st by simp
  then show ?case
    using Cons.IH [of w1] Cons.prems(2) st by (cases r) simp_all
qed

lemma config_commands:
  "\<forall>st \<in> set (config_steps i). command_of st \<noteq> Some '':INTegrate:RESet\<newline>''
      \<and> command_of st \<noteq> Some '':INTegrate:STARt\<newline>''"
  by (simp add: config_steps_def command_of_def timer_cmd_def split: prod.splits)

lemma session_order:
  "phase_of (snd (snd (session dev i old_rows cycles))) \<noteq> None"
proof -
  define w0 where "w0 = \<lparr>clock = 0, wcount = 0, rcount = 0, wire = [], console = [], csv = old_rows\<rparr>"
  obtain r w1 where c: "configure dev i w0 = (r, w1)"
    by (cases "configure dev i w0")
  have "phase_of w0 = Some Idle"
    by (simp add: phase_of_def w0_def)
  then have p1: "phase_of w1 = Some Idle"
    using phase_run_steps [OF _ config_commands, of w0 dev i] c by (simp add: configure_def)
  define w2 where "w2 = (if csv w1 = [] then w1\<lparr>csv := [csv_header]\<rparr> else w1)"
  have p2: "phase_of w2 = Some Idle"
    using p1 by (simp add: w2_def)
  obtain n w3 where m: "measurement_loop dev i cycles 0 w2 = (n, w3)"
    by (cases "measurement_loop dev i cycles 0 w2")
  obtain ok w4 where s: "safe_serial_write dev '':INTegrate:STOP\<newline>'' w3 = (ok, w4)"
    by (cases "safe_serial_write dev '':INTegrate:STOP\<newline>'' w3")
  have "phase_of w3 = Some Idle \<or> phase_of w3 = Some InFlight"
    using phase_measurement_loop [OF p2, of dev i cycles 0] m by simp
  then have "phase_of w4 \<noteq> None"
    using phase_write [OF s] by (auto simp: phase_step_def)
  then show ?thesis
    unfolding session_stages [OF c [unfolded w0_def] m [unfolded w2_def] s]
    using p1 by (cases r) simp_all
qed

lemma wire_sleep [simp]: "wire (sleep n w) = wire w"
  by (simp add: sleep_def)

lemma wire_print [simp]: "wire (print m w) = wire w"
  by (simp add: print_def)

lemma wire_poll_state: "\<exists>es. wire (snd (poll_state dev t s w)) = wire w @ es"
proof (induction dev t s w rule: poll_state.induct)
  case (1 dev t s w)
  obtain ok w1 where wr: "safe_serial_write dev '':INTEGRATE:STATE?\<newline>'' w = (ok, w1)"
    by (cases "safe_serial_write dev '':INTEGRATE:STATE?\<newline>'' w")
  obtain r w2 where rd: "safe_serial_read dev w1 = (r, w2)"
    by (cases "safe_serial_read dev w1")
  note c1 = safe_serial_write_effect(5) [OF wr]
  note c2 = safe_serial_read_effect(5) [OF rd]
  note round = poll_state_round [OF wr rd, of t s]
  show ?case
  proof (cases "t < int (clock w) - int s")
    case True
    then show ?thesis
      by (simp add: round)
  next
    case late: False
    show ?thesis
    proof (cases ok)
      case False
      then show ?thesis
        using "1.IH"(4) [OF late wr [symmetric] _ refl] late c1
        by (auto simp: round)
    next
      case True
      then have okT: "ok = True"
        by simp
      show ?thesis
      proof (cases r)
        case None
        then show ?thesis
          using "1.IH"(1) [OF late wr [symmetric] okT rd [symmetric] None refl] late okT c1 c2
          by (auto simp: round)
      next
        case (Some x)
        show ?thesis
        proof (cases "str_in ''TIM'' (upper x) \<or> str_in ''TIMEUP'' (upper x)")
          case True
          then show ?thesis
            using late okT Some c1 c2 by (auto simp: round)
        next
          case nt: False
          show ?thesis
          proof (cases "str_in ''RUN'' (upper x) \<or> str_in ''RUNNING'' (upper x)")
            case run: True
            then show ?thesis
              using "1.IH"(2) [OF late wr [symmetric] okT rd [symmetric] Some refl nt run]
                late okT Some nt c1 c2
              by (auto simp: round)
          next
            case norun: False
            show ?thesis
            proof (cases "str_in ''STOP'' (upper x) \<or> str_in ''RESET'' (upper x)")
              case True
              then show ?thesis
                using late okT Some nt norun c1 c2 by (auto simp: round)
            next
              case nostop: False
              show ?thesis
              proof (cases "str_in ''OVERFLOW'' (upper x)")
                case True
                then show ?thesis
                  using late okT Some nt norun nostop c1 c2 by (auto simp: round)
              next
                case False
                then show ?thesis
                  using "1.IH"(3) [OF late wr [symmetric] okT rd [symmetric] Some refl nt norun
                      nostop False]
                    late okT Some nt norun nostop c1 c2
                  by (auto simp: round)
              qed
            qed
          qed
        qed
      qed
    qed
  qed
qed

lemma cycle_begins_reset_start:
  assumes ok1: "on_write dev (wcount w) = WriteOk" and ok2: "on_write dev (wcount w + 1) = WriteOk"
  shows "\<exists>es. wire (snd (cycle_body dev i w)) =
     wire w @ Sent '':INTegrate:RESet\<newline>'' # Sent '':INTegrate:STARt\<newline>'' # es"
proof -
  obtain w1 where w1: "safe_serial_write dev '':INTegrate:RESet\<newline>'' w = (True, w1)"
    "wcount w1 = wcount w + 1" "wire w1 = wire w @ [Sent '':INTegrate:RESet\<newline>'']"
    using write_ok [OF ok1] by blast
  have "on_write dev (wcount (sleep 300 w1)) = WriteOk"
    using ok2 w1(2) by (simp add: sleep_def)
  then obtain w2 where w2:
    "safe_serial_write dev '':INTegrate:STARt\<newline>'' (sleep 300 w1) = (True, w2)"
    "wire w2 = wire (sleep 300 w1) @ [Sent '':INTegrate:STARt\<newline>'']"
    using write_ok [of dev "sleep 300 w1"] by blast
  obtain e w3 where s3:
    "poll_state dev (i * 1500 + 5000) (clock (sleep 100 w2)) (sleep 100 w2) = (e, w3)"
    by (cases "poll_state dev (i * 1500 + 5000) (clock (sleep 100 w2)) (sleep 100 w2)")
  obtain ok4 w4 where s4: "safe_serial_write dev '':NUMERIC:NORMAL:VALUE?\<newline>'' w3 = (ok4, w4)"
    by (cases "safe_serial_write dev '':NUMERIC:NORMAL:VALUE?\<newline>'' w3")
  obtain response w5 where s5: "safe_serial_read dev w4 = (response, w5)"
    by (cases "safe_serial_read dev w4")
  obtain es where es: "wire w3 = wire (sleep 100 w2) @ es"
    using wire_poll_state [of dev "i * 1500 + 5000" "clock (sleep 100 w2)" "sleep 100 w2"] s3
    by auto
  note c4 = safe_serial_write_effect(5) [OF s4]
  note c5 = safe_serial_read_effect(5) [OF s5]
  show ?thesis
    using w1 w2 es c4 c5
    by (auto simp: cycle_body_stages [OF w1(1) w2(1) s3 s4 s5] record_measurement_frame
        split: option.splits)
qed

text \<open>
  C9. Whatever the instrument and the link do, the record of the link of a whole
  session is accepted by the monitor: a start is sent only right after a reset, and
  once a start is sent, nothing but state queries is sent (no reset, no start, no
  numeric query) until an answer that ends the polling has been read, or else the
  session ends; so at most one integration is in flight. The monitor rejects a start
  without a reset, a second start, and a reset while the last answer was \<^verbatim>\<open>RUNNING\<close>.
  And the commands are indeed sent in this order: the record of every cycle whose
  reset and start are written begins with the reset followed by the start.
\<close>

theorem one_integration_in_flight:
  "monitor Idle (wire (snd (snd (session dev i old_rows cycles)))) \<noteq> None
   \<and> monitor Idle [Sent '':INTegrate:STARt\<newline>''] = None
   \<and> monitor Idle [Sent '':INTegrate:RESet\<newline>'', Sent '':INTegrate:STARt\<newline>'',
        Sent '':INTegrate:STARt\<newline>''] = None
   \<and> monitor Idle [Sent '':INTegrate:RESet\<newline>'', Sent '':INTegrate:STARt\<newline>'',
        Sent '':INTEGRATE:STATE?\<newline>'', Received (Some ''RUNNING''),
        Sent '':INTegrate:RESet\<newline>''] = None
   \<and> monitor Idle [Sent '':INTegrate:RESet\<newline>'', Sent '':INTegrate:STARt\<newline>'',
        Sent '':INTEGRATE:STATE?\<newline>'', Received (Some ''TIMEUP''),
        Sent '':NUMERIC:NORMAL:VALUE?\<newline>'', Received (Some ''1,2,3,4''),
        Sent '':INTegrate:RESet\<newline>'', Sent '':INTegrate:STARt\<newline>''] = Some InFlight
   \<and> (on_write dev (wcount w) = WriteOk \<and> on_write dev (wcount w + 1) = WriteOk \<longrightarrow>
        (\<exists>es. wire (snd (cycle_body dev i w)) =
           wire w @ Sent '':INTegrate:RESet\<newline>'' # Sent '':INTegrate:STARt\<newline>'' # es))"
proof -
  have t: "\<not> terminal ''RUNNING''" "terminal ''TIMEUP''"
    by (simp_all add: terminal_def text_defs)
  have a: "monitor Idle (wire (snd (snd (session dev i old_rows cycles)))) \<noteq> None"
    using session_order [of dev i old_rows cycles] by (simp add: phase_of_def)
  have b: "monitor Idle [Sent '':INTegrate:STARt\<newline>''] = None"
    "monitor Idle [Sent '':INTegrate:RESet\<newline>'', Sent '':INTegrate:STARt\<newline>'',
        Sent '':INTegrate:STARt\<newline>''] = None"
    "monitor Idle [Sent '':INTegrate:RESet\<newline>'', Sent '':INTegrate:STARt\<newline>'',
        Sent '':INTEGRATE:STATE?\<newline>'', Received (Some ''RUNNING''),
        Sent '':INTegrate:RESet\<newline>''] = None"
    "monitor Idle [Sent '':INTegrate:RESet\<newline>'', Sent '':INTegrate:STARt\<newline>'',
        Sent '':INTEGRATE:STATE?\<newline>'', Received (Some ''TIMEUP''),
        Sent '':NUMERIC:NORMAL:VALUE?\<newline>'', Received (Some ''1,2,3,4''),
        Sent '':INTegrate:RESet\<newline>'', Sent '':INTegrate:STARt\<newline>''] = Some InFlight"
    using t by (simp_all add: phase_step_def)
  have c: "\<exists>es. wire (snd (cycle_body dev i w)) =
           wire w @ Sent '':INTegrate:RESet\<newline>'' # Sent '':INTegrate:STARt\<newline>'' # es"
    if "on_write dev (wcount w) = WriteOk \<and> on_write dev (wcount w + 1) = WriteOk"
    using cycle_begins_reset_start [of dev w i] that by blast
  show ?thesis
    using a b c by blast
qed

theorem one_integration_in_flight_witness:
  "monitor Idle (wire (snd (snd (session timeup_device 10 [] 2)))) \<noteq> None
   \<and> monitor Idle (wire (snd (snd (session stop_device 10 [] 3)))) \<noteq> None
   \<and> on_write stop_device (wcount fresh) = WriteOk
   \<and> (\<exists>es. wire (snd (cycle_body stop_device 10 fresh)) =
         Sent '':INTegrate:RESet\<newline>'' # Sent '':INTegrate:STARt\<newline>'' # es)"
proof -
  have "on_write stop_device (wcount fresh) = WriteOk
      \<and> on_write stop_device (wcount fresh + 1) = WriteOk"
    by (simp add: stop_device_def)
  then have "\<exists>es. wire (snd (cycle_body stop_device 10 fresh)) =
      wire fresh @ Sent '':INTegrate:RESet\<newline>'' # Sent '':INTegrate:STARt\<newline>'' # es"
    using one_integration_in_flight [of stop_device 10 "[]" 3 fresh] by blast
  then show ?thesis
    using one_integration_in_flight [of timeup_device 10 "[]" 2 fresh]
      one_integration_in_flight [of stop_device 10 "[]" 3 fresh]
    by (simp add: fresh_def stop_device_def)
qed

end
